theory Spec2Isabelle
  imports Main "HOL-Library.Sublist"
begin

section \<open>The per-request execution context of Cutelyst (context.cpp)\<close>

text \<open>
  The theory embeds \<^verbatim>\<open>src/Cutelyst/context.cpp\<close>. The private state
  \<^verbatim>\<open>ContextPrivate\<close> becomes the record \<open>ctx\<close>; every member function that
  mutates it becomes a function from \<open>ctx\<close> to \<open>ctx\<close>.

  Components are pointers in the source (\<^verbatim>\<open>Component *\<close>, \<^verbatim>\<open>Action *\<close>); here a
  pointer is a component identifier \<open>cid\<close>, and the table \<open>comps\<close> of the
  environment gives the object behind it. \<^verbatim>\<open>Q_ASSERT_X(code, ...)\<close> excludes the
  null pointer, so \<open>execute\<close> takes a \<open>cid\<close>; a nullable \<^verbatim>\<open>Action *\<close> is a
  \<open>cid option\<close>.
\<close>

subsection \<open>Data\<close>

type_synonym cid = nat

text \<open>
  The two bits of \<^verbatim>\<open>EngineRequest::status\<close> that this file reads or writes.
  \<^verbatim>\<open>status |= Async\<close> is \<open>insert Async\<close>, \<^verbatim>\<open>status & Finalized\<close> is
  \<open>Finalized \<in> status\<close>.
\<close>

datatype status_flag = Async | Finalized

text \<open>
  The calls a component can make on the context it is given (the public
  member functions of \<^verbatim>\<open>Context\<close> that change the dispatch state).
\<close>

datatype cmd =
    CExecute cid
  | CForward cid
  | CDetach "cid option"
  | CDetachAsync
  | CAttachAsync
  | CFinalize
  | CError string
  | CSetState bool

text \<open>
  What the code does to the outside, in the order it does it: the log lines
  (\<^verbatim>\<open>qCCritical\<close>, \<^verbatim>\<open>qCWarning\<close>), the signal \<^verbatim>\<open>afterDispatch\<close>, the call of
  \<^verbatim>\<open>EngineRequest::finalize\<close>, the report and the profile calls on
  \<^verbatim>\<open>Stats\<close>, and the call \<^verbatim>\<open>code->execute(this)\<close> (\<open>Invoke\<close>). Two more
  entries are history only: \<open>Called c\<close> records that a component called \<open>c\<close>
  on the context, \<open>Dequeue i\<close> that \<^verbatim>\<open>attachAsync\<close> read
  \<^verbatim>\<open>pendingAsync[asyncAction++]\<close> at index \<open>i\<close>. No member function reads the
  list.
\<close>

datatype event =
    LogCritical string
  | LogWarning string
  | AfterDispatch
  | EngineFinalize
  | StatsReport
  | ProfileStart string
  | ProfileEnd string
  | Invoke cid
  | Called cmd
  | Dequeue nat

text \<open>
  A \<^verbatim>\<open>QUrl\<close>, as far as \<^verbatim>\<open>uriFor\<close> touches it: \<^verbatim>\<open>setPath\<close> and \<^verbatim>\<open>setQuery\<close>
  replace the path and the query and keep the rest. The path is the decoded
  path (\<^verbatim>\<open>QUrl::DecodedMode\<close>); the query is the item list of the
  \<^verbatim>\<open>QUrlQuery\<close>, first item first, and the empty list is a URL without a query
  component. A default constructed \<^verbatim>\<open>QUrl\<close> is \<open>null_url\<close>.
\<close>

record url =
  url_base :: string
  url_path :: string
  url_query :: "(string \<times> string) list"

definition null_url :: url where
  "null_url = \<lparr>url_base = [], url_path = [], url_query = []\<rparr>"

text \<open>
  \<^verbatim>\<open>ContextPrivate\<close>. \<open>errors\<close> is the member \<^verbatim>\<open>error\<close> (a
  \<^verbatim>\<open>QStringList\<close>), \<open>stack\<close> the \<^verbatim>\<open>QStack\<close> with its top at the end of the
  list, \<open>status\<close> is \<^verbatim>\<open>engineRequest->status\<close>, \<open>stats\<close> says that the
  pointer \<^verbatim>\<open>stats\<close> is not null, \<open>requestUri\<close> is \<^verbatim>\<open>request->uri()\<close>.
  \<open>asyncDetached\<close> is a C++ \<^verbatim>\<open>int\<close> and an unbounded integer here: the two
  agree as long as the counter is within the bounds of \<^verbatim>\<open>int\<close>, and at a
  bound the source's \<^verbatim>\<open>++\<close> or \<^verbatim>\<open>--\<close> overflows where the model goes on
  counting. What is proved of the value of the counter is stated at values
  where the source does not overflow. \<open>asyncAction\<close> starts at 0 and the file
  only increments it, so it is a natural number.
\<close>

record ctx =
  errors :: "string list"
  state :: bool
  stack :: "cid list"
  detached :: bool
  asyncDetached :: int
  pendingAsync :: "cid list"
  asyncAction :: nat
  status :: "status_flag set"
  stats :: bool
  action :: "cid option"
  requestUri :: url
  events :: "event list"

text \<open>
  The code behind \<^verbatim>\<open>Component::execute\<close> is the application's: it may call the
  context any number of times, and what it does next may depend on what a call
  returned and on anything it can read from the context. So a body is a tree:
  it returns, or makes a call and continues with a body chosen from the call's
  result and the context after the call. Calls that return \<^verbatim>\<open>void\<close> hand
  \<open>True\<close> to the continuation.
\<close>

datatype prog = Return bool | Call cmd "bool \<Rightarrow> ctx \<Rightarrow> prog"

record component =
  name :: string
  reverse :: string
  isAction :: bool
  numberOfCaptures :: int
  controllerNS :: string
  body :: prog

text \<open>
  The environment of a context: the objects behind the pointers, the variable
  \<^verbatim>\<open>RECURSION\<close> of the process environment as
  \<^verbatim>\<open>qEnvironmentVariableIntValue\<close> reads it (\<open>None\<close> when it is not set), and
  the two functions of the dispatcher that \<^verbatim>\<open>uriFor\<close> asks,
  \<^verbatim>\<open>Dispatcher::expandAction\<close> and \<^verbatim>\<open>Dispatcher::uriForAction\<close>. Their code
  is not in the source given, so they are parameters: any function of the
  arguments they are called with.
\<close>

record env =
  comps :: "cid \<Rightarrow> component"
  RECURSION :: "int option"
  disp_expandAction :: "cid option \<Rightarrow> cid option"
  disp_uriForAction :: "cid option \<Rightarrow> string list \<Rightarrow> string"

subsection \<open>Errors, state, finalize\<close>

definition error :: "string \<Rightarrow> ctx \<Rightarrow> ctx" where
  "error msg s =
     (if msg = [] then s\<lparr>errors := []\<rparr>
      else s\<lparr>errors := errors s @ [msg], events := events s @ [LogCritical msg]\<rparr>)"

definition setState :: "bool \<Rightarrow> ctx \<Rightarrow> ctx" where
  "setState b s = s\<lparr>state := b\<rparr>"

definition detachAsync :: "ctx \<Rightarrow> ctx" where
  "detachAsync s =
     s\<lparr>asyncDetached := asyncDetached s + 1, status := insert Async (status s)\<rparr>"

text \<open>
  Modelled from the spec: \<^verbatim>\<open>EngineRequest::finalize\<close> is not in the source
  given. The spec calls it the operation that hands the completed response
  back to the transport, after which the context is finalized: it is one
  \<open>EngineFinalize\<close> entry and the bit \<open>Finalized\<close>.
\<close>

definition engineRequest_finalize :: "ctx \<Rightarrow> ctx" where
  "engineRequest_finalize s =
     s\<lparr>status := insert Finalized (status s), events := events s @ [EngineFinalize]\<rparr>"

definition finalize_warning :: string where
  "finalize_warning = ''Trying to finalize a finalized request! Skipping...''"

text \<open>
  \<^verbatim>\<open>Context::finalize\<close>. The report on the elapsed time is one \<open>StatsReport\<close>
  entry (its text is floating point arithmetic on a clock).
\<close>

definition finalize :: "ctx \<Rightarrow> ctx" where
  "finalize s =
     (if Finalized \<in> status s then s\<lparr>events := events s @ [LogWarning finalize_warning]\<rparr>
      else engineRequest_finalize
        (if stats s then s\<lparr>stats := False, events := events s @ [StatsReport]\<rparr> else s))"

subsection \<open>The recursion guard and the profiler's labels\<close>

definition recursion_limit :: "int option \<Rightarrow> int" where
  "recursion_limit v = (case v of Some r \<Rightarrow> r | None \<Rightarrow> 1000)"

text \<open>\<^verbatim>\<open>QString::number\<close> on a size: decimal digits.\<close>

fun string_of_nat :: "nat \<Rightarrow> string" where
  "string_of_nat n =
     (if n < 10 then [''0123456789'' ! n]
      else string_of_nat (n div 10) @ [''0123456789'' ! (n mod 10)])"

definition deep_recursion_msg :: "component \<Rightarrow> nat \<Rightarrow> string" where
  "deep_recursion_msg c depth =
     ''Deep recursion detected (stack size '' @ string_of_nat depth @ '') calling ''
       @ reverse c @ '', '' @ name c"

text \<open>The branch of \<^verbatim>\<open>execute\<close> taken at the limit: \<^verbatim>\<open>error(msg); setState(false)\<close>.\<close>

definition deep_recursion :: "component \<Rightarrow> ctx \<Rightarrow> ctx" where
  "deep_recursion c s = setState False (error (deep_recursion_msg c (length (stack s))) s)"

text \<open>
  \<^verbatim>\<open>ContextPrivate::statsStartExecute\<close>, called after the push. It returns the
  label, empty for an internal component, which is then not profiled.
  \<^verbatim>\<open>rightJustified\<close> pads the label on the left to the width asked for.
\<close>

definition statsStartExecute :: "component \<Rightarrow> ctx \<Rightarrow> string \<times> ctx" where
  "statsStartExecute c s =
     (if name c \<noteq> [] \<and> hd (name c) = CHR ''_'' then ([], s)
      else
        let a0 = reverse c;
            a1 = (if isAction c then CHR ''/'' # a0 else a0);
            a2 = (if length (stack s) > 2
                  then replicate (length (stack s) - 2) CHR '' '' @ ''-> '' @ a1
                  else a1)
        in (a2, s\<lparr>events := events s @ [ProfileStart a2]\<rparr>))"

definition statsFinishExecute :: "string \<Rightarrow> ctx \<Rightarrow> ctx" where
  "statsFinishExecute statsInfo s = s\<lparr>events := events s @ [ProfileEnd statsInfo]\<rparr>"

subsection \<open>Dispatch: execute, forward, detach, attachAsync\<close>

definition attach_warning :: string where
  "attach_warning = ''Trying to async attach to a finalized request! Skipping...''"

text \<open>
  The end of \<^verbatim>\<open>attachAsync\<close>, after its loop: the signal \<^verbatim>\<open>afterDispatch\<close>
  (an event; what is connected to it is not this file's) and \<^verbatim>\<open>finalize\<close>,
  when the request is asynchronous.
\<close>

definition attach_finish :: "ctx \<Rightarrow> ctx" where
  "attach_finish s =
     (if Async \<in> status s then finalize (s\<lparr>events := events s @ [AfterDispatch]\<rparr>) else s)"

text \<open>
  The functions that run components call each other and the components call
  them back, so they are defined together, as the cases of one function
  \<open>perform\<close> on a \<open>task\<close>: which member function is entered, with its
  arguments. The first argument of \<open>perform\<close> bounds the nesting of calls and
  the number of steps: \<open>None\<close> says that the bound was too small, \<open>Some\<close> is
  the return of the call. The branches of the source that return at once do
  so under any bound. Member functions that return \<^verbatim>\<open>void\<close> return \<open>True\<close>.

  \<^item> \<open>Execute\<close> is \<^verbatim>\<open>Context::execute\<close>. \<^verbatim>\<open>push\<close> appends to the stack and
    \<^verbatim>\<open>pop\<close> removes its last element. \<open>RunProg\<close> is the virtual call
    \<^verbatim>\<open>code->execute(this)\<close> on a body, and \<open>CallCmd\<close> one call of that body
    on the context.
  \<^item> \<open>Forward\<close>, \<open>Detach\<close>, \<open>AttachAsync\<close> are the member functions of these
    names; \<open>AttachLoop\<close> is the \<^verbatim>\<open>while\<close> loop of \<^verbatim>\<open>attachAsync\<close> and what
    follows it.
\<close>

text \<open>
  Modelled from the spec: \<^verbatim>\<open>Dispatcher::forward\<close> is not in the source given.
  The spec has it run the target as part of the current request cycle and
  return the target's result, changing neither \<open>detached\<close> nor
  \<open>asyncDetached\<close> itself: the case \<open>DispatcherForward\<close> of \<open>perform\<close>
  executes the target.
\<close>

datatype task =
    Execute cid
  | RunProg prog
  | CallCmd cmd
  | DispatcherForward cid
  | Forward cid
  | Detach "cid option"
  | AttachAsync
  | AttachLoop

fun rank :: "task \<Rightarrow> nat" where
  "rank (CallCmd c) = 3"
| "rank (Forward c) = 2"
| "rank (Detach a) = 2"
| "rank AttachAsync = 2"
| "rank (DispatcherForward c) = 1"
| "rank t = 0"

function (sequential) perform :: "nat \<Rightarrow> env \<Rightarrow> task \<Rightarrow> ctx \<Rightarrow> (bool \<times> ctx) option" where
  "perform 0 e (Execute code) s =
     (if int (length (stack s)) \<ge> recursion_limit (RECURSION e)
      then Some (False, deep_recursion (comps e code) s)
      else None)"
| "perform (Suc n) e (Execute code) s =
     (if int (length (stack s)) \<ge> recursion_limit (RECURSION e)
      then Some (False, deep_recursion (comps e code) s)
      else
        let s1 = s\<lparr>stack := stack s @ [code]\<rparr> in
        if stats s1 then
          (case statsStartExecute (comps e code) s1 of (statsInfo, s2) \<Rightarrow>
            (case perform n e (RunProg (body (comps e code)))
                    (s2\<lparr>events := events s2 @ [Invoke code]\<rparr>) of
               None \<Rightarrow> None
             | Some (ret, s3) \<Rightarrow>
                 let s4 = (if stats s3 \<and> statsInfo \<noteq> []
                           then statsFinishExecute statsInfo s3 else s3)
                 in Some (ret, s4\<lparr>stack := butlast (stack s4)\<rparr>)))
        else
          (case perform n e (RunProg (body (comps e code)))
                  (s1\<lparr>events := events s1 @ [Invoke code]\<rparr>) of
             None \<Rightarrow> None
           | Some (ret, s3) \<Rightarrow> Some (ret, s3\<lparr>stack := butlast (stack s3)\<rparr>)))"
| "perform n e (RunProg (Return b)) s = Some (b, s)"
| "perform 0 e (RunProg (Call c k)) s = None"
| "perform (Suc n) e (RunProg (Call c k)) s =
     (case perform n e (CallCmd c) (s\<lparr>events := events s @ [Called c]\<rparr>) of
        None \<Rightarrow> None
      | Some (r, s') \<Rightarrow> perform n e (RunProg (k r s')) s')"
| "perform n e (CallCmd (CError msg)) s = Some (True, error msg s)"
| "perform n e (CallCmd (CSetState b)) s = Some (True, setState b s)"
| "perform n e (CallCmd CDetachAsync) s = Some (True, detachAsync s)"
| "perform n e (CallCmd CFinalize) s = Some (True, finalize s)"
| "perform n e (CallCmd (CExecute c)) s = perform n e (Execute c) s"
| "perform n e (CallCmd (CForward c)) s = perform n e (Forward c) s"
| "perform n e (CallCmd (CDetach a)) s = perform n e (Detach a) s"
| "perform n e (CallCmd CAttachAsync) s = perform n e AttachAsync s"
| "perform n e (DispatcherForward c) s = perform n e (Execute c) s"
| "perform n e (Forward c) s = perform n e (DispatcherForward c) s"
| "perform n e (Detach (Some a)) s =
     map_option (\<lambda>(r, s'). (True, s')) (perform n e (DispatcherForward a) s)"
| "perform n e (Detach None) s = Some (True, s\<lparr>detached := True\<rparr>)"
| "perform n e AttachAsync s =
     (let s1 = s\<lparr>asyncDetached := asyncDetached s - 1\<rparr> in
      if asyncDetached s1 \<noteq> 0 then Some (True, s1)
      else if Finalized \<in> status s1
      then Some (True, s1\<lparr>events := events s1 @ [LogWarning attach_warning]\<rparr>)
      else perform n e AttachLoop s1)"
| "perform 0 e AttachLoop s =
     (if asyncAction s < length (pendingAsync s) then None
      else Some (True, attach_finish s))"
| "perform (Suc n) e AttachLoop s =
     (if asyncAction s < length (pendingAsync s) then
        let a = pendingAsync s ! asyncAction s;
            s1 = s\<lparr>asyncAction := asyncAction s + 1,
                   events := events s @ [Dequeue (asyncAction s)]\<rparr>
        in (case perform n e (Execute a) s1 of
              None \<Rightarrow> None
            | Some (r, s2) \<Rightarrow>
                if \<not> r then Some (True, attach_finish s2)
                else if asyncDetached s2 \<noteq> 0 then Some (True, s2)
                else perform n e AttachLoop s2)
      else Some (True, attach_finish s))"
  by pat_completeness auto

termination
  by (relation "measures [\<lambda>(n, e, t, s). n, \<lambda>(n, e, t, s). rank t]") auto

text \<open>The member functions, by their names in the source.\<close>

definition execute :: "nat \<Rightarrow> env \<Rightarrow> cid \<Rightarrow> ctx \<Rightarrow> (bool \<times> ctx) option" where
  "execute n e code s = perform n e (Execute code) s"

definition forward :: "nat \<Rightarrow> env \<Rightarrow> cid \<Rightarrow> ctx \<Rightarrow> (bool \<times> ctx) option" where
  "forward n e c s = perform n e (Forward c) s"

definition detach :: "nat \<Rightarrow> env \<Rightarrow> cid option \<Rightarrow> ctx \<Rightarrow> ctx option" where
  "detach n e a s = map_option snd (perform n e (Detach a) s)"

definition attachAsync :: "nat \<Rightarrow> env \<Rightarrow> ctx \<Rightarrow> ctx option" where
  "attachAsync n e s = map_option snd (perform n e AttachAsync s)"

text \<open>The loop of \<^verbatim>\<open>attachAsync\<close> with what follows it.\<close>

definition attach_loop :: "nat \<Rightarrow> env \<Rightarrow> ctx \<Rightarrow> ctx option" where
  "attach_loop n e s = map_option snd (perform n e AttachLoop s)"

text \<open>A body run on the context, from outside any \<^verbatim>\<open>execute\<close>.\<close>

definition run_prog :: "nat \<Rightarrow> env \<Rightarrow> prog \<Rightarrow> ctx \<Rightarrow> (bool \<times> ctx) option" where
  "run_prog n e p s = perform n e (RunProg p) s"

subsection \<open>URIs\<close>

text \<open>\<^verbatim>\<open>QStringList::join\<close>.\<close>

fun join :: "string \<Rightarrow> string list \<Rightarrow> string" where
  "join sep [] = []"
| "join sep [x] = x"
| "join sep (x # y # ys) = x @ sep @ join sep (y # ys)"

text \<open>
  \<^verbatim>\<open>QUrlQuery::addQueryItem\<close> is Qt's, and Qt documents it: it appends the pair
  to the end of the query.
\<close>

definition addQueryItem ::
  "string \<Rightarrow> string \<Rightarrow> (string \<times> string) list \<Rightarrow> (string \<times> string) list" where
  "addQueryItem k v query = query @ [(k, v)]"

text \<open>
  A \<^verbatim>\<open>ParamsMultiMap\<close> is given by its entries in the order its iterator
  visits them, from \<^verbatim>\<open>constBegin()\<close> to \<^verbatim>\<open>constEnd()\<close>. The loop of
  \<^verbatim>\<open>uriFor\<close> starts with the iterator at the end (position \<open>size\<close>) and, until
  it is at the beginning, steps it back and adds the entry under it.
\<close>

fun add_backwards ::
  "(string \<times> string) list \<Rightarrow> nat \<Rightarrow> (string \<times> string) list \<Rightarrow> (string \<times> string) list" where
  "add_backwards queryValues 0 query = query"
| "add_backwards queryValues (Suc it) query =
     add_backwards queryValues it
       (addQueryItem (fst (queryValues ! it)) (snd (queryValues ! it)) query)"

text \<open>
  \<^verbatim>\<open>Context::uriFor(path, args, queryValues)\<close>. With an empty path the code
  dereferences the current action; \<open>None\<close> is that dereference of a null
  pointer.
\<close>

definition uriFor ::
  "env \<Rightarrow> ctx \<Rightarrow> string \<Rightarrow> string list \<Rightarrow> (string \<times> string) list \<Rightarrow> url option" where
  "uriFor e s path args queryValues =
     (case (if path = [] then
              (case action s of
                 None \<Rightarrow> None
               | Some a \<Rightarrow>
                   let ns = controllerNS (comps e a) in Some (if ns \<noteq> [] then ns else []))
            else Some path) of
        None \<Rightarrow> None
      | Some p0 \<Rightarrow>
          let p1 = (if args \<noteq> [] then
                      (if p0 = ''/'' then p0 @ join ''/'' args
                       else p0 @ ''/'' @ join ''/'' args)
                    else p0);
              p2 = (if \<not> (p1 \<noteq> [] \<and> hd p1 = CHR ''/'') then CHR ''/'' # p1 else p1);
              query = (if queryValues \<noteq> [] then
                         (if length queryValues \<noteq> 0
                          then add_backwards queryValues (length queryValues) []
                          else [])
                       else [])
          in Some ((requestUri s)\<lparr>url_path := p2, url_query := query\<rparr>))"

text \<open>
  The loop of \<^verbatim>\<open>uriFor(action, captures, args, queryValues)\<close> that moves
  arguments to the captures: it returns the captures and the arguments left.
\<close>

fun take_captures :: "int \<Rightarrow> string list \<Rightarrow> string list \<Rightarrow> string list \<times> string list" where
  "take_captures n localCaptures [] = (localCaptures, [])"
| "take_captures n localCaptures (a # localArgs) =
     (if int (length localCaptures) < n
      then take_captures n (localCaptures @ [a]) localArgs
      else (localCaptures, a # localArgs))"

text \<open>
  \<^verbatim>\<open>Context::uriFor(action, captures, args, queryValues)\<close>. The code calls
  \<^verbatim>\<open>numberOfCaptures\<close> on what \<^verbatim>\<open>expandAction\<close> returns: \<open>None\<close> is that
  call on a null pointer. The warning it logs when no path is found is left
  out (the function is \<^verbatim>\<open>const\<close> and returns the URL only).
\<close>

definition uriFor_action ::
  "env \<Rightarrow> ctx \<Rightarrow> cid option \<Rightarrow> string list \<Rightarrow> string list \<Rightarrow> (string \<times> string) list
     \<Rightarrow> url option" where
  "uriFor_action e s act captures args queryValues =
     (let localAction = (case act of None \<Rightarrow> action s | Some a \<Rightarrow> Some a) in
      case disp_expandAction e act of
        None \<Rightarrow> None
      | Some expandedAction \<Rightarrow>
          (case (if numberOfCaptures (comps e expandedAction) > 0
                 then take_captures (numberOfCaptures (comps e expandedAction)) captures args
                 else ([], captures @ args)) of
             (localCaptures, localArgs) \<Rightarrow>
               let path = disp_uriForAction e localAction localCaptures in
               if path = [] then Some null_url
               else uriFor e s path localArgs queryValues))"

subsection \<open>Notions used to state the properties\<close>

text \<open>
  \<^verbatim>\<open>execute\<close> below the limit is an entry, the virtual call, and a leave; the
  entry returns the profiler's label with the context.
\<close>

definition at_limit :: "env \<Rightarrow> ctx \<Rightarrow> bool" where
  "at_limit e s = (int (length (stack s)) \<ge> recursion_limit (RECURSION e))"

definition exec_enter :: "env \<Rightarrow> cid \<Rightarrow> ctx \<Rightarrow> string \<times> ctx" where
  "exec_enter e code s =
     (let s1 = s\<lparr>stack := stack s @ [code]\<rparr> in
      if stats s1 then
        (case statsStartExecute (comps e code) s1 of
           (statsInfo, s2) \<Rightarrow> (statsInfo, s2\<lparr>events := events s2 @ [Invoke code]\<rparr>))
      else ([], s1\<lparr>events := events s1 @ [Invoke code]\<rparr>))"

definition exec_leave :: "string \<Rightarrow> ctx \<Rightarrow> ctx" where
  "exec_leave statsInfo s3 =
     (let s4 = (if stats s3 \<and> statsInfo \<noteq> [] then statsFinishExecute statsInfo s3 else s3)
      in s4\<lparr>stack := butlast (stack s4)\<rparr>)"

text \<open>The read \<^verbatim>\<open>pendingAsync[asyncAction++]\<close> of the loop.\<close>

definition dequeue :: "ctx \<Rightarrow> ctx" where
  "dequeue s = s\<lparr>asyncAction := asyncAction s + 1,
                 events := events s @ [Dequeue (asyncAction s)]\<rparr>"

text \<open>
  The indices read from the queue, and the number of times the response was
  handed to the engine, in a list of events.
\<close>

fun dequeued :: "event list \<Rightarrow> nat list" where
  "dequeued [] = []"
| "dequeued (Dequeue i # es) = i # dequeued es"
| "dequeued (ev # es) = dequeued es"

definition handoffs :: "event list \<Rightarrow> nat" where
  "handoffs es = length (filter (\<lambda>ev. ev = EngineFinalize) es)"

definition finalized :: "ctx \<Rightarrow> bool" where
  "finalized s = (Finalized \<in> status s)"

text \<open>
  The number that a string of decimal digits writes, to say that the message
  of the recursion guard gives the depth.
\<close>

definition decimal_value :: "string \<Rightarrow> nat" where
  "decimal_value ds = foldl (\<lambda>a ch. 10 * a + (of_char ch - 48)) 0 ds"

text \<open>
  \<open>executes e a s r t\<close>: the call \<^verbatim>\<open>execute(a)\<close> on the context \<open>s\<close> returns
  \<open>r\<close> and leaves the context \<open>t\<close>.
\<close>

definition executes :: "env \<Rightarrow> cid \<Rightarrow> ctx \<Rightarrow> bool \<Rightarrow> ctx \<Rightarrow> bool" where
  "executes e a s r t \<longleftrightarrow> (\<exists>k. execute k e a s = Some (r, t))"

text \<open>
  The resumption as claim C1 describes it, written from the claim's words and
  not from the loop of the source, to compare the two. \<open>resumption e s s'\<close>:
  started on \<open>s\<close>, the resumption ends with \<open>s'\<close>. With no entry left it
  goes to the end of \<^verbatim>\<open>attachAsync\<close>. Otherwise the cursor is advanced and the
  entry that was under it is executed: a failure goes to the end of
  \<^verbatim>\<open>attachAsync\<close>; a success that leaves \<open>asyncDetached\<close> different from 0
  returns with the context as it is; after any other success the resumption
  goes on from the context the action left.
\<close>

inductive resumption :: "env \<Rightarrow> ctx \<Rightarrow> ctx \<Rightarrow> bool" for e :: env where
  exhausted:
    "length (pendingAsync s) \<le> asyncAction s \<Longrightarrow> resumption e s (attach_finish s)"
| failed:
    "asyncAction s < length (pendingAsync s) \<Longrightarrow>
     executes e (pendingAsync s ! asyncAction s) (dequeue s) False t \<Longrightarrow>
     resumption e s (attach_finish t)"
| suspended:
    "asyncAction s < length (pendingAsync s) \<Longrightarrow>
     executes e (pendingAsync s ! asyncAction s) (dequeue s) True t \<Longrightarrow>
     asyncDetached t \<noteq> 0 \<Longrightarrow>
     resumption e s t"
| continued:
    "asyncAction s < length (pendingAsync s) \<Longrightarrow>
     executes e (pendingAsync s ! asyncAction s) (dequeue s) True t \<Longrightarrow>
     asyncDetached t = 0 \<Longrightarrow>
     resumption e t s' \<Longrightarrow>
     resumption e s s'"

text \<open>
  A relation between the context before and after that every step of the
  dispatch keeps: then every run keeps it.
\<close>

definition preserved :: "(ctx \<Rightarrow> ctx \<Rightarrow> bool) \<Rightarrow> bool" where
  "preserved R \<longleftrightarrow>
     (\<forall>s. R s s) \<and>
     (\<forall>s s' s''. R s s' \<longrightarrow> R s' s'' \<longrightarrow> R s s'') \<and>
     (\<forall>c s. R s (deep_recursion c s)) \<and>
     (\<forall>e c s s3. R (snd (exec_enter e c s)) s3 \<longrightarrow> R s (exec_leave (fst (exec_enter e c s)) s3)) \<and>
     (\<forall>c s. (\<forall>msg. c \<noteq> CError msg) \<longrightarrow> R s (s\<lparr>events := events s @ [Called c]\<rparr>)) \<and>
     (\<forall>msg s. R s (error msg (s\<lparr>events := events s @ [Called (CError msg)]\<rparr>))) \<and>
     (\<forall>b s. R s (setState b s)) \<and>
     (\<forall>s. R s (detachAsync s)) \<and>
     (\<forall>s. R s (finalize s)) \<and>
     (\<forall>s. R s (s\<lparr>detached := True\<rparr>)) \<and>
     (\<forall>s. R s (s\<lparr>asyncDetached := asyncDetached s - 1\<rparr>)) \<and>
     (\<forall>m s. R s (s\<lparr>events := events s @ [LogWarning m]\<rparr>)) \<and>
     (\<forall>s. R s (s\<lparr>events := events s @ [AfterDispatch]\<rparr>)) \<and>
     (\<forall>s. asyncAction s < length (pendingAsync s) \<longrightarrow> R s (dequeue s))"

subsection \<open>A small application, for concrete runs\<close>

text \<open>
  Six components: one that succeeds, one that fails, one that suspends the
  dispatch, one that records an error, finalizes and fails, one that
  executes the first and returns its result, and one that finalizes and
  succeeds. The dispatcher expands an
  action to itself and builds the path of an action from \<open>/item\<close> and the
  captures.
\<close>

definition mk_component :: "string \<Rightarrow> int \<Rightarrow> prog \<Rightarrow> component" where
  "mk_component n k b =
     \<lparr>name = n, reverse = ''root/'' @ n, isAction = True, numberOfCaptures = k,
      controllerNS = ''root'', body = b\<rparr>"

definition app_comps :: "cid \<Rightarrow> component" where
  "app_comps i =
     (if i = 0 then mk_component ''index'' 1 (Return True)
      else if i = 1 then mk_component ''fail'' 0 (Return False)
      else if i = 2 then mk_component ''suspend'' 0 (Call CDetachAsync (\<lambda>r s. Return True))
      else if i = 3 then
        mk_component ''boom'' 0
          (Call (CError ''boom'') (\<lambda>r s. Call CFinalize (\<lambda>r s. Return False)))
      else if i = 4 then mk_component ''outer'' 0 (Call (CExecute 0) (\<lambda>r s. Return r))
      else mk_component ''finish'' 0 (Call CFinalize (\<lambda>r s. Return True)))"

definition app :: env where
  "app = \<lparr>comps = app_comps, RECURSION = None,
          disp_expandAction = (\<lambda>a. a),
          disp_uriForAction = (\<lambda>a captures. ''/item'' @ concat (map (\<lambda>c. ''/'' @ c) captures))\<rparr>"

definition ctx0 :: ctx where
  "ctx0 = \<lparr>errors = [], state = False, stack = [], detached = False, asyncDetached = 0,
           pendingAsync = [], asyncAction = 0, status = {}, stats = False, action = None,
           requestUri = \<lparr>url_base = ''http://localhost'', url_path = [], url_query = []\<rparr>,
           events = []\<rparr>"

subsection \<open>Relations that every step keeps\<close>

text \<open>
  The queue of pending actions is kept, the cursor only moves forward and
  stays within the queue, and the indices read are those the cursor passed.
\<close>

definition queue_kept :: "ctx \<Rightarrow> ctx \<Rightarrow> bool" where
  "queue_kept s s' \<longleftrightarrow>
     pendingAsync s' = pendingAsync s \<and> asyncAction s \<le> asyncAction s' \<and>
     (asyncAction s \<le> length (pendingAsync s) \<longrightarrow> asyncAction s' \<le> length (pendingAsync s)) \<and>
     dequeued (events s') = dequeued (events s) @ [asyncAction s ..< asyncAction s']"

text \<open>
  The error messages are kept, in order, unless a component called
  \<^verbatim>\<open>error\<close> with the empty string in between.
\<close>

definition errors_kept :: "ctx \<Rightarrow> ctx \<Rightarrow> bool" where
  "errors_kept s s' \<longleftrightarrow>
     (\<exists>ev. events s' = events s @ ev \<and>
       (Called (CError []) \<notin> set ev \<longrightarrow> prefix (errors s) (errors s')))"

text \<open>A finalized context stays finalized, and nothing more is handed over.\<close>

definition finalized_kept :: "ctx \<Rightarrow> ctx \<Rightarrow> bool" where
  "finalized_kept s s' \<longleftrightarrow>
     (Finalized \<in> status s \<longrightarrow>
        Finalized \<in> status s' \<and> handoffs (events s') = handoffs (events s))"

text \<open>
  A call returns when some bound is large enough for it. \<open>room\<close> is the
  depth left under the recursion limit.
\<close>

definition room :: "env \<Rightarrow> ctx \<Rightarrow> nat" where
  "room e s = nat (recursion_limit (RECURSION e) - int (length (stack s)))"

definition returns :: "env \<Rightarrow> task \<Rightarrow> ctx \<Rightarrow> bool" where
  "returns e t s \<longleftrightarrow> (\<exists>n x. perform n e t s = Some x)"

section \<open>Lemmas\<close>

subsection \<open>The recursive equations, one member function at a time\<close>

declare perform.simps(1,2,20) [simp del]

declare string_of_nat.simps [simp del]

lemma perform_Execute_0:
  "perform 0 e (Execute code) s =
     (if at_limit e s then Some (False, deep_recursion (comps e code) s) else None)"
  by (simp add: at_limit_def perform.simps(1))

lemma perform_Execute_Suc:
  "perform (Suc n) e (Execute code) s =
     (if at_limit e s then Some (False, deep_recursion (comps e code) s)
      else (case perform n e (RunProg (body (comps e code))) (snd (exec_enter e code s)) of
              None \<Rightarrow> None
            | Some (ret, s3) \<Rightarrow> Some (ret, exec_leave (fst (exec_enter e code s)) s3)))"
  by (simp add: perform.simps(2) exec_enter_def exec_leave_def at_limit_def Let_def
      split: prod.splits option.splits)

lemma perform_AttachLoop_Suc:
  "perform (Suc n) e AttachLoop s =
     (if asyncAction s < length (pendingAsync s) then
        (case perform n e (Execute (pendingAsync s ! asyncAction s)) (dequeue s) of
           None \<Rightarrow> None
         | Some (r, s2) \<Rightarrow>
             if \<not> r then Some (True, attach_finish s2)
             else if asyncDetached s2 \<noteq> 0 then Some (True, s2)
             else perform n e AttachLoop s2)
      else Some (True, attach_finish s))"
  by (simp add: perform.simps(20) dequeue_def Let_def)

lemma attachAsync_eq:
  "attachAsync n e s =
     (let s1 = s\<lparr>asyncDetached := asyncDetached s - 1\<rparr> in
      if asyncDetached s1 \<noteq> 0 then Some s1
      else if Finalized \<in> status s1
      then Some (s1\<lparr>events := events s1 @ [LogWarning attach_warning]\<rparr>)
      else attach_loop n e s1)"
  by (simp add: attachAsync_def attach_loop_def Let_def)

lemma attachAsync_decrement:
  "asyncDetached s \<noteq> 1 \<Longrightarrow> attachAsync n e s = Some (s\<lparr>asyncDetached := asyncDetached s - 1\<rparr>)"
  by (simp add: attachAsync_eq)

lemma attach_loop_0:
  "attach_loop 0 e s =
     (if asyncAction s < length (pendingAsync s) then None else Some (attach_finish s))"
  by (simp add: attach_loop_def)

lemma attach_loop_Suc:
  "attach_loop (Suc n) e s =
     (if asyncAction s < length (pendingAsync s) then
        (case execute n e (pendingAsync s ! asyncAction s) (dequeue s) of
           None \<Rightarrow> None
         | Some (r, s2) \<Rightarrow>
             if \<not> r then Some (attach_finish s2)
             else if asyncDetached s2 \<noteq> 0 then Some s2
             else attach_loop n e s2)
      else Some (attach_finish s))"
  by (simp add: attach_loop_def execute_def perform_AttachLoop_Suc split: option.splits)

lemma attach_loop_done:
  "length (pendingAsync s) \<le> asyncAction s \<Longrightarrow> attach_loop n e s = Some (attach_finish s)"
  by (cases n) (simp_all add: attach_loop_0 attach_loop_Suc)


subsection \<open>A relation kept by every step is kept by every run\<close>

lemma preservedD:
  assumes "preserved R"
  shows "R s s"
    and "R s s' \<Longrightarrow> R s' s'' \<Longrightarrow> R s s''"
    and "R s (deep_recursion c s)"
    and "R (snd (exec_enter e code s)) s3 \<Longrightarrow> R s (exec_leave (fst (exec_enter e code s)) s3)"
    and "(\<And>msg. cm \<noteq> CError msg) \<Longrightarrow> R s (s\<lparr>events := events s @ [Called cm]\<rparr>)"
    and "R s (error msg (s\<lparr>events := events s @ [Called (CError msg)]\<rparr>))"
    and "R s (setState b s)"
    and "R s (detachAsync s)"
    and "R s (finalize s)"
    and "R s (s\<lparr>detached := True\<rparr>)"
    and "R s (s\<lparr>asyncDetached := asyncDetached s - 1\<rparr>)"
    and "R s (s\<lparr>events := events s @ [LogWarning m]\<rparr>)"
    and "R s (s\<lparr>events := events s @ [AfterDispatch]\<rparr>)"
    and "asyncAction s < length (pendingAsync s) \<Longrightarrow> R s (dequeue s)"
  using assms unfolding preserved_def by (rule conjunct1 conjunct2 | erule conjE | assumption | simp (no_asm_simp))+

lemma preserved_attach_finish:
  assumes "preserved R"
  shows "R s (attach_finish s)"
  unfolding attach_finish_def
  using preservedD(1,2,9,13)[OF assms] by (metis (full_types))

lemma preserved_callcmd:
  assumes P: "preserved R"
    and rec: "\<And>t s r s'. (\<And>c. t \<noteq> CallCmd c) \<Longrightarrow> perform n e t s = Some (r, s') \<Longrightarrow> R s s'"
    and run: "perform n e (CallCmd c) (s\<lparr>events := events s @ [Called c]\<rparr>) = Some (r, s')"
  shows "R s s'"
proof (cases c)
  case (CError msg)
  with run show ?thesis using preservedD(6)[OF P] by auto
next
  case (CSetState b)
  with run have "s' = setState b (s\<lparr>events := events s @ [Called c]\<rparr>)" by simp
  moreover have "R s (s\<lparr>events := events s @ [Called c]\<rparr>)"
    using preservedD(5)[OF P] CSetState by simp
  ultimately show ?thesis using preservedD(2,7)[OF P] by blast
next
  case CDetachAsync
  with run have "s' = detachAsync (s\<lparr>events := events s @ [Called c]\<rparr>)" by simp
  moreover have "R s (s\<lparr>events := events s @ [Called c]\<rparr>)"
    using preservedD(5)[OF P] CDetachAsync by simp
  ultimately show ?thesis using preservedD(2,8)[OF P] by blast
next
  case CFinalize
  with run have "s' = finalize (s\<lparr>events := events s @ [Called c]\<rparr>)" by simp
  moreover have "R s (s\<lparr>events := events s @ [Called c]\<rparr>)"
    using preservedD(5)[OF P] CFinalize by simp
  ultimately show ?thesis using preservedD(2,9)[OF P] by blast
next
  case (CExecute x)
  with run have "perform n e (Execute x) (s\<lparr>events := events s @ [Called c]\<rparr>) = Some (r, s')"
    by simp
  then have "R (s\<lparr>events := events s @ [Called c]\<rparr>) s'" by (rule rec[rotated]) simp
  moreover have "R s (s\<lparr>events := events s @ [Called c]\<rparr>)"
    using preservedD(5)[OF P] CExecute by simp
  ultimately show ?thesis using preservedD(2)[OF P] by blast
next
  case (CForward x)
  with run have "perform n e (Forward x) (s\<lparr>events := events s @ [Called c]\<rparr>) = Some (r, s')"
    by simp
  then have "R (s\<lparr>events := events s @ [Called c]\<rparr>) s'" by (rule rec[rotated]) simp
  moreover have "R s (s\<lparr>events := events s @ [Called c]\<rparr>)"
    using preservedD(5)[OF P] CForward by simp
  ultimately show ?thesis using preservedD(2)[OF P] by blast
next
  case (CDetach a)
  with run have "perform n e (Detach a) (s\<lparr>events := events s @ [Called c]\<rparr>) = Some (r, s')"
    by simp
  then have "R (s\<lparr>events := events s @ [Called c]\<rparr>) s'" by (rule rec[rotated]) simp
  moreover have "R s (s\<lparr>events := events s @ [Called c]\<rparr>)"
    using preservedD(5)[OF P] CDetach by simp
  ultimately show ?thesis using preservedD(2)[OF P] by blast
next
  case CAttachAsync
  with run have "perform n e AttachAsync (s\<lparr>events := events s @ [Called c]\<rparr>) = Some (r, s')"
    by simp
  then have "R (s\<lparr>events := events s @ [Called c]\<rparr>) s'" by (rule rec[rotated]) simp
  moreover have "R s (s\<lparr>events := events s @ [Called c]\<rparr>)"
    using preservedD(5)[OF P] CAttachAsync by simp
  ultimately show ?thesis using preservedD(2)[OF P] by blast
qed

lemma preserved_rank:
  assumes P: "preserved R"
    and E: "\<And>c s r s'. perform n e (Execute c) s = Some (r, s') \<Longrightarrow> R s s'"
    and L: "\<And>s r s'. perform n e AttachLoop s = Some (r, s') \<Longrightarrow> R s s'"
    and RP: "\<And>p s r s'. perform n e (RunProg p) s = Some (r, s') \<Longrightarrow> R s s'"
    and t: "\<And>c. t \<noteq> CallCmd c"
    and run: "perform n e t s = Some (r, s')"
  shows "R s s'"
proof (cases t)
  case (Execute c)
  with run show ?thesis using E by simp
next
  case (RunProg p)
  with run show ?thesis using RP by simp
next
  case (CallCmd c)
  from t[of c] CallCmd show ?thesis by simp
next
  case (DispatcherForward c)
  with run show ?thesis using E by simp
next
  case (Forward c)
  with run show ?thesis using E by simp
next
  case (Detach a)
  show ?thesis
  proof (cases a)
    case None
    with run Detach show ?thesis using preservedD(10)[OF P] by auto
  next
    case (Some x)
    with run Detach obtain r0 where "perform n e (Execute x) s = Some (r0, s')"
      by auto
    then show ?thesis by (rule E)
  qed
next
  case AttachAsync
  let ?s1 = "s\<lparr>asyncDetached := asyncDetached s - 1\<rparr>"
  have d: "R s ?s1" by (rule preservedD(11)[OF P])
  show ?thesis
  proof (cases "asyncDetached s - 1 \<noteq> 0")
    case True
    with run AttachAsync have "s' = ?s1" by (simp add: Let_def)
    with d show ?thesis by simp
  next
    case nz: False
    show ?thesis
    proof (cases "Finalized \<in> status s")
      case True
      with nz run AttachAsync
      have "s' = ?s1\<lparr>events := events ?s1 @ [LogWarning attach_warning]\<rparr>"
        by (simp add: Let_def)
      then show ?thesis using d preservedD(2,12)[OF P] by blast
    next
      case False
      with nz run AttachAsync have "perform n e AttachLoop ?s1 = Some (r, s')"
        by (simp add: Let_def)
      then have "R ?s1 s'" by (rule L)
      with d show ?thesis using preservedD(2)[OF P] by blast
    qed
  qed
next
  case AttachLoop
  with run show ?thesis using L by simp
qed

lemma perform_preserved:
  assumes P: "preserved R"
  shows "(\<And>c. t \<noteq> CallCmd c) \<Longrightarrow> perform n e t s = Some (r, s') \<Longrightarrow> R s s'"
proof (induction n arbitrary: t s r s')
  case 0
  have E: "R s s'" if "perform 0 e (Execute c) s = Some (r, s')" for c s r s'
    using that preservedD(3)[OF P] by (auto simp: perform_Execute_0 split: if_splits)
  have L: "R s s'" if "perform 0 e AttachLoop s = Some (r, s')" for s r s'
    using that preserved_attach_finish[OF P] by (auto split: if_splits)
  have RP: "R s s'" if "perform 0 e (RunProg p) s = Some (r, s')" for p s r s'
    using that preservedD(1)[OF P] by (cases p) auto
  from P E L RP "0.prems" show ?case by (rule preserved_rank)
next
  case (Suc n)
  note IH = Suc.IH
  have E: "R s s'" if run: "perform (Suc n) e (Execute c) s = Some (r, s')" for c s r s'
  proof (cases "at_limit e s")
    case True
    with run show ?thesis using preservedD(3)[OF P] by (auto simp: perform_Execute_Suc)
  next
    case False
    with run obtain s3 where
      b: "perform n e (RunProg (body (comps e c))) (snd (exec_enter e c s)) = Some (r, s3)"
      and s': "s' = exec_leave (fst (exec_enter e c s)) s3"
      by (auto simp: perform_Execute_Suc split: option.splits)
    have "R (snd (exec_enter e c s)) s3" by (rule IH[OF _ b]) simp
    then show ?thesis unfolding s' by (rule preservedD(4)[OF P])
  qed
  have L: "R s s'" if run: "perform (Suc n) e AttachLoop s = Some (r, s')" for s r s'
  proof (cases "asyncAction s < length (pendingAsync s)")
    case False
    with run show ?thesis using preserved_attach_finish[OF P] by (auto simp: perform_AttachLoop_Suc)
  next
    case True
    then have dq: "R s (dequeue s)" by (rule preservedD(14)[OF P])
    from True run obtain r2 s2 where
      x: "perform n e (Execute (pendingAsync s ! asyncAction s)) (dequeue s) = Some (r2, s2)"
      and rest: "(if \<not> r2 then Some (True, attach_finish s2)
                 else if asyncDetached s2 \<noteq> 0 then Some (True, s2)
                 else perform n e AttachLoop s2) = Some (r, s')"
      by (auto simp: perform_AttachLoop_Suc split: option.splits)
    have "R (dequeue s) s2" by (rule IH[OF _ x]) simp
    with dq have a: "R s s2" using preservedD(2)[OF P] by blast
    have "R s2 s'"
    proof (cases "\<not> r2")
      case True
      with rest show ?thesis using preserved_attach_finish[OF P] by auto
    next
      case r2: False
      show ?thesis
      proof (cases "asyncDetached s2 \<noteq> 0")
        case True
        with r2 rest show ?thesis using preservedD(1)[OF P] by auto
      next
        case False
        with r2 rest have "perform n e AttachLoop s2 = Some (r, s')" by simp
        then show ?thesis by (rule IH[rotated]) simp
      qed
    qed
    with a show ?thesis using preservedD(2)[OF P] by blast
  qed
  have RP: "R s s'" if run: "perform (Suc n) e (RunProg p) s = Some (r, s')" for p s r s'
  proof (cases p)
    case (Return b)
    with run show ?thesis using preservedD(1)[OF P] by auto
  next
    case (Call c k)
    with run obtain r1 s1 where
      c1: "perform n e (CallCmd c) (s\<lparr>events := events s @ [Called c]\<rparr>) = Some (r1, s1)"
      and c2: "perform n e (RunProg (k r1 s1)) s1 = Some (r, s')"
      by (auto split: option.splits)
    have "R s s1" using P IH c1 by (rule preserved_callcmd)
    moreover have "R s1 s'" by (rule IH[OF _ c2]) simp
    ultimately show ?thesis using preservedD(2)[OF P] by blast
  qed
  from P E L RP Suc.prems show ?case by (rule preserved_rank)
qed


subsection \<open>The stack\<close>

lemma deep_recursion_msg_nonempty: "deep_recursion_msg c d \<noteq> []"
  by (simp add: deep_recursion_msg_def)

lemma deep_recursion_eq:
  "deep_recursion c s =
     s\<lparr>errors := errors s @ [deep_recursion_msg c (length (stack s))],
       events := events s @ [LogCritical (deep_recursion_msg c (length (stack s)))],
       state := False\<rparr>"
  by (simp add: deep_recursion_def setState_def error_def deep_recursion_msg_nonempty)

lemma stack_enter: "stack (snd (exec_enter e c s)) = stack s @ [c]"
  by (simp add: exec_enter_def statsStartExecute_def Let_def split: prod.splits)

lemma stack_leave: "stack (exec_leave i s) = butlast (stack s)"
  by (simp add: exec_leave_def statsFinishExecute_def Let_def)

lemma stack_finalize: "stack (finalize s) = stack s"
  by (simp add: finalize_def engineRequest_finalize_def)

lemma preserved_stack: "preserved (\<lambda>s s'. stack s' = stack s)"
  unfolding preserved_def
  by (simp add: deep_recursion_eq stack_enter stack_leave stack_finalize error_def
      setState_def detachAsync_def dequeue_def)


subsection \<open>The queue and its cursor\<close>

lemma dequeued_append: "dequeued (xs @ ys) = dequeued xs @ dequeued ys"
  by (induction xs rule: dequeued.induct) simp_all

lemma upt_append: "a \<le> b \<Longrightarrow> b \<le> c \<Longrightarrow> [a..<b] @ [b..<c] = [a..<c]"
  by (metis le_Suc_ex upt_add_eq_append)

lemma queue_kept_refl: "queue_kept s s"
  by (simp add: queue_kept_def)

lemma queue_kept_trans: "queue_kept s s' \<Longrightarrow> queue_kept s' s'' \<Longrightarrow> queue_kept s s''"
  by (auto simp: queue_kept_def upt_append)

lemma queue_kept_same:
  "pendingAsync s' = pendingAsync s \<Longrightarrow> asyncAction s' = asyncAction s \<Longrightarrow>
   dequeued (events s') = dequeued (events s) \<Longrightarrow> queue_kept s s'"
  by (simp add: queue_kept_def)

lemma queue_kept_finalize: "queue_kept s (finalize s)"
  by (rule queue_kept_same) (simp_all add: finalize_def engineRequest_finalize_def dequeued_append)

lemma queue_kept_enter_leave:
  assumes "queue_kept (snd (exec_enter e c s)) s3"
  shows "queue_kept s (exec_leave (fst (exec_enter e c s)) s3)"
proof -
  have a: "queue_kept s (snd (exec_enter e c s))"
    by (rule queue_kept_same)
      (simp_all add: exec_enter_def statsStartExecute_def Let_def dequeued_append split: prod.splits)
  have b: "queue_kept s3 (exec_leave i s3)" for i
    by (rule queue_kept_same)
      (simp_all add: exec_leave_def statsFinishExecute_def Let_def dequeued_append)
  from a assms b show ?thesis by (blast intro: queue_kept_trans)
qed

lemma preserved_queue: "preserved queue_kept"
  unfolding preserved_def
proof (intro conjI allI impI)
  fix s show "queue_kept s s" by (rule queue_kept_refl)
next
  fix s s' s'' assume "queue_kept s s'" "queue_kept s' s''"
  then show "queue_kept s s''" by (rule queue_kept_trans)
next
  fix e c s s3 assume "queue_kept (snd (exec_enter e c s)) s3"
  then show "queue_kept s (exec_leave (fst (exec_enter e c s)) s3)"
    by (rule queue_kept_enter_leave)
next
  fix s show "queue_kept s (finalize s)" by (rule queue_kept_finalize)
next
  fix s :: ctx assume "asyncAction s < length (pendingAsync s)"
  then show "queue_kept s (dequeue s)"
    by (simp add: queue_kept_def dequeue_def dequeued_append)
qed (rule queue_kept_same; simp add: deep_recursion_eq error_def setState_def detachAsync_def
      dequeued_append)+


subsection \<open>The error messages\<close>

lemma errors_keptI:
  "events s' = events s @ ev \<Longrightarrow> Called (CError []) \<notin> set ev \<Longrightarrow>
   prefix (errors s) (errors s') \<Longrightarrow> errors_kept s s'"
  by (auto simp: errors_kept_def)

lemma errors_kept_refl: "errors_kept s s"
  by (simp add: errors_kept_def)

lemma errors_kept_trans:
  assumes "errors_kept s s'" and "errors_kept s' s''"
  shows "errors_kept s s''"
proof -
  from assms obtain ev ev' where
    1: "events s' = events s @ ev" "Called (CError []) \<notin> set ev \<longrightarrow> prefix (errors s) (errors s')"
    and 2: "events s'' = events s' @ ev'"
      "Called (CError []) \<notin> set ev' \<longrightarrow> prefix (errors s') (errors s'')"
    unfolding errors_kept_def by blast
  have "events s'' = events s @ (ev @ ev')" using 1 2 by simp
  moreover have "Called (CError []) \<notin> set (ev @ ev') \<longrightarrow> prefix (errors s) (errors s'')"
    using 1 2 by (auto intro: prefix_order.trans)
  ultimately show ?thesis unfolding errors_kept_def by blast
qed

lemma errors_kept_finalize: "errors_kept s (finalize s)"
  by (cases "Finalized \<in> status s"; cases "stats s")
    (rule errors_keptI[where ev = "[LogWarning finalize_warning]"]
      errors_keptI[where ev = "[StatsReport, EngineFinalize]"]
      errors_keptI[where ev = "[EngineFinalize]"];
      simp add: finalize_def engineRequest_finalize_def)+

lemma errors_kept_enter: "errors_kept s (snd (exec_enter e c s))"
  unfolding errors_kept_def
  by (auto simp: exec_enter_def statsStartExecute_def Let_def split: prod.splits)

lemma errors_kept_leave: "errors_kept s (exec_leave i s)"
  unfolding errors_kept_def
  by (auto simp: exec_leave_def statsFinishExecute_def Let_def)

lemma errors_kept_error:
  "errors_kept s (error msg (s\<lparr>events := events s @ [Called (CError msg)]\<rparr>))"
  unfolding errors_kept_def by (auto simp: error_def)

lemma preserved_errors: "preserved errors_kept"
  unfolding preserved_def
proof (intro conjI allI impI)
  fix s show "errors_kept s s" by (rule errors_kept_refl)
next
  fix s s' s'' assume "errors_kept s s'" "errors_kept s' s''"
  then show "errors_kept s s''" by (rule errors_kept_trans)
next
  fix e c s s3 assume "errors_kept (snd (exec_enter e c s)) s3"
  then show "errors_kept s (exec_leave (fst (exec_enter e c s)) s3)"
    using errors_kept_enter errors_kept_leave by (blast intro: errors_kept_trans)
next
  fix s show "errors_kept s (finalize s)" by (rule errors_kept_finalize)
next
  fix msg s show "errors_kept s (error msg (s\<lparr>events := events s @ [Called (CError msg)]\<rparr>))"
    by (rule errors_kept_error)
next
  fix c :: cmd and s :: ctx assume "\<forall>msg. c \<noteq> CError msg"
  then show "errors_kept s (s\<lparr>events := events s @ [Called c]\<rparr>)"
    by (auto simp: errors_kept_def)
qed (auto simp: errors_kept_def deep_recursion_eq setState_def detachAsync_def dequeue_def)


subsection \<open>The finalized flag\<close>

lemma finalized_kept_same:
  "status s \<subseteq> status s' \<Longrightarrow> handoffs (events s') = handoffs (events s) \<Longrightarrow>
   finalized_kept s s'"
  by (auto simp: finalized_kept_def)

lemma finalized_kept_trans:
  "finalized_kept s s' \<Longrightarrow> finalized_kept s' s'' \<Longrightarrow> finalized_kept s s''"
  by (auto simp: finalized_kept_def)

lemma finalized_kept_enter: "finalized_kept s (snd (exec_enter e c s))"
  by (rule finalized_kept_same)
    (simp_all add: exec_enter_def statsStartExecute_def Let_def handoffs_def split: prod.splits)

lemma finalized_kept_leave: "finalized_kept s (exec_leave i s)"
  by (rule finalized_kept_same)
    (simp_all add: exec_leave_def statsFinishExecute_def Let_def handoffs_def)

lemma preserved_finalized: "preserved finalized_kept"
  unfolding preserved_def
proof (intro conjI allI impI)
  fix s s' s'' assume "finalized_kept s s'" "finalized_kept s' s''"
  then show "finalized_kept s s''" by (rule finalized_kept_trans)
next
  fix e c s s3 assume "finalized_kept (snd (exec_enter e c s)) s3"
  then show "finalized_kept s (exec_leave (fst (exec_enter e c s)) s3)"
    using finalized_kept_enter finalized_kept_leave by (blast intro: finalized_kept_trans)
next
  fix s show "finalized_kept s (finalize s)"
    by (simp add: finalized_kept_def finalize_def handoffs_def)
qed (rule finalized_kept_same;
     simp add: deep_recursion_eq error_def setState_def detachAsync_def dequeue_def handoffs_def;
     blast?)+


subsection \<open>A larger bound changes no result\<close>

lemma mono_rank:
  assumes E: "\<And>c s x. perform n e (Execute c) s = Some x \<Longrightarrow> perform (n + k) e (Execute c) s = Some x"
    and L: "\<And>s x. perform n e AttachLoop s = Some x \<Longrightarrow> perform (n + k) e AttachLoop s = Some x"
    and RP: "\<And>p s x. perform n e (RunProg p) s = Some x \<Longrightarrow> perform (n + k) e (RunProg p) s = Some x"
    and run: "perform n e t s = Some x"
  shows "perform (n + k) e t s = Some x"
proof -
  have DF: "perform (n + k) e (DispatcherForward c) s = Some x"
    if "perform n e (DispatcherForward c) s = Some x" for c s x
    using that E by simp
  have D: "perform (n + k) e (Detach a) s = Some x"
    if "perform n e (Detach a) s = Some x" for a s x
  proof (cases a)
    case None
    with that show ?thesis by simp
  next
    case (Some c)
    with that obtain y where "perform n e (Execute c) s = Some y"
      and "x = (case y of (r, s') \<Rightarrow> (True, s'))" by auto
    with E[of c s y] Some show ?thesis by simp
  qed
  have A: "perform (n + k) e AttachAsync s = Some x"
    if "perform n e AttachAsync s = Some x" for s x
    using that L by (auto simp: Let_def split: if_splits)
  show ?thesis
  proof (cases t)
    case (CallCmd c)
    with run show ?thesis using E D A by (cases c) auto
  qed (use run E L RP DF D A in auto)
qed

lemma perform_mono: "perform n e t s = Some x \<Longrightarrow> perform (n + k) e t s = Some x"
proof (induction n arbitrary: t s x)
  case 0
  have E: "perform (0 + k) e (Execute c) s = Some x"
    if "perform 0 e (Execute c) s = Some x" for c s x
    using that by (cases k) (auto simp: perform_Execute_0 perform_Execute_Suc split: if_splits)
  have L: "perform (0 + k) e AttachLoop s = Some x"
    if "perform 0 e AttachLoop s = Some x" for s x
    using that by (cases k) (auto simp: perform_AttachLoop_Suc split: if_splits)
  have RP: "perform (0 + k) e (RunProg p) s = Some x"
    if "perform 0 e (RunProg p) s = Some x" for p s x
    using that by (cases p) auto
  from E L RP "0.prems" show ?case by (rule mono_rank)
next
  case (Suc n)
  note IH = Suc.IH
  have E: "perform (Suc n + k) e (Execute c) s = Some x"
    if "perform (Suc n) e (Execute c) s = Some x" for c s x
    using that IH[of "RunProg (body (comps e c))" "snd (exec_enter e c s)"]
    by (auto simp: perform_Execute_Suc split: if_splits option.splits)
  have L: "perform (Suc n + k) e AttachLoop s = Some x"
    if "perform (Suc n) e AttachLoop s = Some x" for s x
  proof (cases "asyncAction s < length (pendingAsync s)")
    case False
    with that show ?thesis by (simp add: perform_AttachLoop_Suc)
  next
    case True
    with that obtain r2 s2 where
      x: "perform n e (Execute (pendingAsync s ! asyncAction s)) (dequeue s) = Some (r2, s2)"
      and rest: "(if \<not> r2 then Some (True, attach_finish s2)
                 else if asyncDetached s2 \<noteq> 0 then Some (True, s2)
                 else perform n e AttachLoop s2) = Some x"
      by (auto simp: perform_AttachLoop_Suc split: option.splits)
    from rest have "(if \<not> r2 then Some (True, attach_finish s2)
                 else if asyncDetached s2 \<noteq> 0 then Some (True, s2)
                 else perform (n + k) e AttachLoop s2) = Some x"
      using IH[of AttachLoop s2 x] by (auto split: if_splits)
    with IH[OF x] True show ?thesis by (simp add: perform_AttachLoop_Suc)
  qed
  have RP: "perform (Suc n + k) e (RunProg p) s = Some x"
    if "perform (Suc n) e (RunProg p) s = Some x" for p s x
  proof (cases p)
    case (Return b)
    with that show ?thesis by simp
  next
    case (Call c f)
    with that obtain r1 s1 where
      c1: "perform n e (CallCmd c) (s\<lparr>events := events s @ [Called c]\<rparr>) = Some (r1, s1)"
      and c2: "perform n e (RunProg (f r1 s1)) s1 = Some x"
      by (auto split: option.splits)
    from IH[OF c1] IH[OF c2] Call show ?thesis by simp
  qed
  from E L RP Suc.prems show ?case by (rule mono_rank)
qed


subsection \<open>Every call returns\<close>

text \<open>
  A component makes finitely many calls, every nested \<^verbatim>\<open>execute\<close> deepens the
  stack, which the recursion limit bounds, and every turn of the loop of
  \<^verbatim>\<open>attachAsync\<close> moves the cursor forward in a queue that does not change.
\<close>

lemma returnsI: "perform n e t s = Some x \<Longrightarrow> returns e t s"
  unfolding returns_def by blast

lemma stack_perform:
  "perform n e t s = Some (r, s') \<Longrightarrow> stack s' = stack s"
proof (cases t)
  case (CallCmd c)
  assume run: "perform n e t s = Some (r, s')"
  show ?thesis
  proof (cases c)
    case (CExecute x)
    with run CallCmd show ?thesis
      using perform_preserved[OF preserved_stack, of "Execute x" n e s r s'] by simp
  next
    case (CForward x)
    with run CallCmd show ?thesis
      using perform_preserved[OF preserved_stack, of "Forward x" n e s r s'] by simp
  next
    case (CDetach a)
    with run CallCmd show ?thesis
      using perform_preserved[OF preserved_stack, of "Detach a" n e s r s'] by simp
  next
    case CAttachAsync
    with run CallCmd show ?thesis
      using perform_preserved[OF preserved_stack, of AttachAsync n e s r s'] by simp
  qed (use run CallCmd in \<open>auto simp: stack_finalize error_def setState_def detachAsync_def\<close>)
qed (use perform_preserved[OF preserved_stack, of t n e s r s'] in auto)

lemma returns_rank:
  assumes E: "\<And>c. returns e (Execute c) s"
    and L: "\<And>s'. stack s' = stack s \<Longrightarrow> returns e AttachLoop s'"
    and t: "\<And>p. t \<noteq> RunProg p"
  shows "returns e t s"
proof -
  have DF: "returns e (DispatcherForward c) s" for c
    using E[of c] by (auto simp: returns_def)
  have D: "returns e (Detach a) s" for a
  proof (cases a)
    case None
    show ?thesis unfolding None by (rule returnsI[of 0]) simp
  next
    case (Some c)
    from E[of c] obtain n x where "perform n e (Execute c) s = Some x"
      by (auto simp: returns_def)
    then show ?thesis unfolding Some by (intro returnsI[of n]) simp
  qed
  have A: "returns e AttachAsync s"
  proof -
    from L[of "s\<lparr>asyncDetached := asyncDetached s - 1\<rparr>"]
    obtain n x where "perform n e AttachLoop (s\<lparr>asyncDetached := asyncDetached s - 1\<rparr>) = Some x"
      by (auto simp: returns_def)
    then have "\<exists>y. perform n e AttachAsync s = Some y" by (cases x) (auto simp: Let_def)
    then show ?thesis by (auto simp: returns_def)
  qed
  show ?thesis
  proof (cases t)
    case (Execute c)
    then show ?thesis using E by simp
  next
    case (RunProg p)
    from t[of p] RunProg show ?thesis by simp
  next
    case (CallCmd c)
    show ?thesis unfolding CallCmd
    proof (cases c)
      case (CExecute x)
      with E[of x] show "returns e (CallCmd c) s" by (auto simp: returns_def)
    next
      case (CForward x)
      with E[of x] show "returns e (CallCmd c) s" by (auto simp: returns_def)
    next
      case (CDetach a)
      with D[of a] show "returns e (CallCmd c) s" by (auto simp: returns_def)
    next
      case CAttachAsync
      with A show "returns e (CallCmd c) s" by (auto simp: returns_def)
    qed (auto simp: returns_def)
  next
    case (DispatcherForward c)
    then show ?thesis using DF by simp
  next
    case (Forward c)
    then show ?thesis using E[of c] by (auto simp: returns_def)
  next
    case (Detach a)
    then show ?thesis using D by simp
  next
    case AttachAsync
    then show ?thesis using A by simp
  next
    case AttachLoop
    then show ?thesis using L[of s] by simp
  qed
qed

lemma returns_loop:
  assumes E: "\<And>c s'. stack s' = stack s0 \<Longrightarrow> returns e (Execute c) s'"
  shows "stack s = stack s0 \<Longrightarrow> returns e AttachLoop s"
proof (induction "length (pendingAsync s) - asyncAction s" arbitrary: s rule: less_induct)
  case less
  show ?case
  proof (cases "asyncAction s < length (pendingAsync s)")
    case False
    then have "perform 0 e AttachLoop s = Some (True, attach_finish s)" by simp
    then show ?thesis by (rule returnsI)
  next
    case True
    have "stack (dequeue s) = stack s0" using less.prems by (simp add: dequeue_def)
    from E[OF this, of "pendingAsync s ! asyncAction s"] obtain n r2 s2 where
      x: "perform n e (Execute (pendingAsync s ! asyncAction s)) (dequeue s) = Some (r2, s2)"
      by (auto simp: returns_def)
    then have st: "stack s2 = stack s0"
      using stack_perform[OF x] less.prems by (simp add: dequeue_def)
    have "queue_kept (dequeue s) s2"
      using perform_preserved[OF preserved_queue _ x] by simp
    then have q: "pendingAsync s2 = pendingAsync s" "asyncAction s < asyncAction s2"
      by (simp_all add: queue_kept_def dequeue_def)
    show ?thesis
    proof (cases "r2 \<and> asyncDetached s2 = 0")
      case False
      with x True have "\<exists>y. perform (Suc n) e AttachLoop s = Some y"
        by (auto simp: perform_AttachLoop_Suc)
      then show ?thesis by (auto simp: returns_def)
    next
      case cont: True
      have "length (pendingAsync s2) - asyncAction s2 < length (pendingAsync s) - asyncAction s"
        using q True by simp
      from less.hyps[OF this st] obtain m y where l: "perform m e AttachLoop s2 = Some y"
        by (auto simp: returns_def)
      from perform_mono[OF x, of m] perform_mono[OF l, of n]
      have "perform (n + m) e (Execute (pendingAsync s ! asyncAction s)) (dequeue s) = Some (r2, s2)"
        and "perform (n + m) e AttachLoop s2 = Some y"
        by (simp_all add: add.commute)
      with cont True have "perform (Suc (n + m)) e AttachLoop s = Some y"
        by (simp add: perform_AttachLoop_Suc)
      then show ?thesis by (rule returnsI)
    qed
  qed
qed

lemma returns_prog:
  assumes E: "\<And>c s'. stack s' = stack s0 \<Longrightarrow> returns e (Execute c) s'"
  shows "stack s = stack s0 \<Longrightarrow> returns e (RunProg p) s"
proof (induction p arbitrary: s)
  case (Return b)
  show ?case by (rule returnsI[of 0]) simp
next
  case (Call c k)
  let ?s = "s\<lparr>events := events s @ [Called c]\<rparr>"
  have st: "stack ?s = stack s0" using Call.prems by simp
  have "returns e (CallCmd c) ?s"
  proof (rule returns_rank)
    show "returns e (Execute x) ?s" for x using E[OF st] .
    show "returns e AttachLoop s'" if "stack s' = stack ?s" for s'
      using returns_loop[of s0 e s'] E that st by simp
  qed simp
  then obtain n r1 s1 where c1: "perform n e (CallCmd c) ?s = Some (r1, s1)"
    by (auto simp: returns_def)
  have "stack s1 = stack s0" using stack_perform[OF c1] st by simp
  from Call.IH[of "k r1" "k r1 s1", OF _ _ this]
  obtain m y where c2: "perform m e (RunProg (k r1 s1)) s1 = Some y"
    by (auto simp: returns_def)
  from perform_mono[OF c1, of m] perform_mono[OF c2, of n]
  have "perform (Suc (n + m)) e (RunProg (Call c k)) s = Some y"
    by (simp add: add.commute)
  then show ?case by (rule returnsI)
qed

lemma returns_execute_level: "room e s \<le> d \<Longrightarrow> returns e (Execute c) s"
proof (induction d arbitrary: s c)
  case 0
  then have "at_limit e s" by (simp add: room_def at_limit_def)
  then have "perform 0 e (Execute c) s = Some (False, deep_recursion (comps e c) s)"
    by (simp add: perform_Execute_0)
  then show ?case by (rule returnsI)
next
  case (Suc d)
  show ?case
  proof (cases "at_limit e s")
    case True
    then have "perform 0 e (Execute c) s = Some (False, deep_recursion (comps e c) s)"
      by (simp add: perform_Execute_0)
    then show ?thesis by (rule returnsI)
  next
    case False
    let ?s1 = "snd (exec_enter e c s)"
    have r: "room e s' \<le> d" if "stack s' = stack ?s1" for s'
      using that Suc.prems False by (simp add: room_def at_limit_def stack_enter)
    have "returns e (RunProg (body (comps e c))) ?s1"
      by (rule returns_prog[of ?s1]) (use r Suc.IH in auto)
    then obtain n x where "perform n e (RunProg (body (comps e c))) ?s1 = Some x"
      by (auto simp: returns_def)
    with False have "\<exists>y. perform (Suc n) e (Execute c) s = Some y"
      by (cases x) (auto simp: perform_Execute_Suc)
    then show ?thesis by (auto simp: returns_def)
  qed
qed

lemma perform_returns: "returns e t s"
proof -
  have E: "returns e (Execute c) s'" for c s'
    by (rule returns_execute_level[of e s' "room e s'"]) simp
  show ?thesis
  proof (cases "\<exists>p. t = RunProg p")
    case True
    then obtain p where "t = RunProg p" by blast
    then show ?thesis using returns_prog[of s e s p] E by simp
  next
    case False
    show ?thesis
      by (rule returns_rank) (use E returns_loop[of s e] False in auto)
  qed
qed

lemma execute_returns: "\<exists>n r s'. execute n e c s = Some (r, s')"
  using perform_returns[of e "Execute c" s] by (auto simp: returns_def execute_def)

lemma run_prog_returns: "\<exists>n r s'. run_prog n e p s = Some (r, s')"
  using perform_returns[of e "RunProg p" s] by (auto simp: returns_def run_prog_def)

lemma attachAsync_returns: "\<exists>n s'. attachAsync n e s = Some s'"
  using perform_returns[of e AttachAsync s] by (auto simp: returns_def attachAsync_def)


subsection \<open>The loop of attachAsync and the resumption of the claim\<close>

lemma attach_finish_eq:
  "attach_finish t =
     (if Async \<in> status t then
        (if Finalized \<in> status t
         then t\<lparr>events := events t @ [AfterDispatch, LogWarning finalize_warning]\<rparr>
         else t\<lparr>stats := False, status := insert Finalized (status t),
                events := events t @ [AfterDispatch] @ (if stats t then [StatsReport] else [])
                            @ [EngineFinalize]\<rparr>)
      else t)"
  by (simp add: attach_finish_def finalize_def engineRequest_finalize_def)

lemma resumption_turn:
  "resumption e u u' \<longleftrightarrow>
     (length (pendingAsync u) \<le> asyncAction u \<and> u' = attach_finish u) \<or>
     (asyncAction u < length (pendingAsync u) \<and>
      (\<exists>r t. executes e (pendingAsync u ! asyncAction u) (dequeue u) r t \<and>
         (if \<not> r then u' = attach_finish t
          else if asyncDetached t \<noteq> 0 then u' = t
          else resumption e t u')))"
  by (subst resumption.simps) (auto split: if_splits)

lemma attach_loop_resumption:
  "perform n e AttachLoop s = Some (r, s') \<Longrightarrow> resumption e s s'"
proof (induction n arbitrary: s r s')
  case 0
  then show ?case by (auto split: if_splits intro: resumption.exhausted)
next
  case (Suc n)
  show ?case
  proof (cases "asyncAction s < length (pendingAsync s)")
    case False
    with Suc.prems show ?thesis
      by (auto simp: perform_AttachLoop_Suc intro: resumption.exhausted)
  next
    case True
    with Suc.prems obtain r2 t where
      x: "perform n e (Execute (pendingAsync s ! asyncAction s)) (dequeue s) = Some (r2, t)"
      and rest: "(if \<not> r2 then Some (True, attach_finish t)
                 else if asyncDetached t \<noteq> 0 then Some (True, t)
                 else perform n e AttachLoop t) = Some (r, s')"
      by (auto simp: perform_AttachLoop_Suc split: option.splits)
    from x have ex: "executes e (pendingAsync s ! asyncAction s) (dequeue s) r2 t"
      unfolding executes_def execute_def by blast
    show ?thesis
    proof (cases "\<not> r2")
      case True
      with rest ex \<open>asyncAction s < length (pendingAsync s)\<close> show ?thesis
        by (auto intro: resumption.failed)
    next
      case r2: False
      show ?thesis
      proof (cases "asyncDetached t \<noteq> 0")
        case True
        with r2 rest ex \<open>asyncAction s < length (pendingAsync s)\<close> show ?thesis
          by (auto intro: resumption.suspended)
      next
        case False
        with r2 rest have "perform n e AttachLoop t = Some (r, s')" by simp
        then have "resumption e t s'" by (rule Suc.IH)
        with r2 False ex \<open>asyncAction s < length (pendingAsync s)\<close> show ?thesis
          by (auto intro: resumption.continued)
      qed
    qed
  qed
qed

lemma resumption_attach_loop:
  "resumption e s s' \<Longrightarrow> \<exists>k. perform k e AttachLoop s = Some (True, s')"
proof (induction rule: resumption.induct)
  case (exhausted s)
  then have "perform 0 e AttachLoop s = Some (True, attach_finish s)" by simp
  then show ?case by blast
next
  case (failed s t)
  then obtain k where "perform k e (Execute (pendingAsync s ! asyncAction s)) (dequeue s) = Some (False, t)"
    by (auto simp: executes_def execute_def)
  with failed(1) have "perform (Suc k) e AttachLoop s = Some (True, attach_finish t)"
    by (simp add: perform_AttachLoop_Suc)
  then show ?case by blast
next
  case (suspended s t)
  then obtain k where "perform k e (Execute (pendingAsync s ! asyncAction s)) (dequeue s) = Some (True, t)"
    by (auto simp: executes_def execute_def)
  with suspended(1,3) have "perform (Suc k) e AttachLoop s = Some (True, t)"
    by (simp add: perform_AttachLoop_Suc)
  then show ?case by blast
next
  case (continued s t s')
  then obtain k m where
    x: "perform k e (Execute (pendingAsync s ! asyncAction s)) (dequeue s) = Some (True, t)"
    and l: "perform m e AttachLoop t = Some (True, s')"
    by (auto simp: executes_def execute_def)
  from perform_mono[OF x, of m] perform_mono[OF l, of k]
  have "perform (k + m) e (Execute (pendingAsync s ! asyncAction s)) (dequeue s) = Some (True, t)"
    and "perform (k + m) e AttachLoop t = Some (True, s')"
    by (simp_all add: add.commute)
  with continued(1,3) have "perform (Suc (k + m)) e AttachLoop s = Some (True, s')"
    by (simp add: perform_AttachLoop_Suc)
  then show ?case by blast
qed

subsection \<open>Decimal digits\<close>

lemma digit_char: "n < 10 \<Longrightarrow> of_char (''0123456789'' ! n) = (48 + n :: nat)"
proof -
  assume "n < 10"
  then consider "n = 0" | "n = 1" | "n = 2" | "n = 3" | "n = 4" | "n = 5" | "n = 6"
    | "n = 7" | "n = 8" | "n = 9" by atomize_elim arith
  then show ?thesis by cases simp_all
qed

lemma decimal_value_snoc:
  "decimal_value (ds @ [ch]) = 10 * decimal_value ds + (of_char ch - 48)"
  by (simp add: decimal_value_def)

lemma decimal_string_of_nat: "decimal_value (string_of_nat n) = n"
proof (induction n rule: string_of_nat.induct)
  case (1 n)
  show ?case
  proof (cases "n < 10")
    case True
    then show ?thesis
      by (simp add: string_of_nat.simps[of n] decimal_value_def digit_char)
  next
    case False
    with 1 have "decimal_value (string_of_nat (n div 10)) = n div 10" by simp
    with False show ?thesis
      by (simp add: string_of_nat.simps[of n] decimal_value_snoc digit_char)
  qed
qed

subsection \<open>URIs\<close>

lemma add_backwards_rev:
  "it \<le> length qv \<Longrightarrow> add_backwards qv it q = q @ rev (take it qv)"
proof (induction it arbitrary: q)
  case 0
  then show ?case by simp
next
  case (Suc it)
  then show ?case
    by (simp add: addQueryItem_def take_Suc_conv_app_nth)
qed

lemma take_captures_eq:
  "take_captures n caps args =
     (caps @ take (nat n - length caps) args, drop (nat n - length caps) args)"
proof (induction args arbitrary: caps)
  case Nil
  then show ?case by simp
next
  case (Cons a args)
  show ?case
  proof (cases "int (length caps) < n")
    case True
    then have "nat n - length caps = Suc (nat n - length (caps @ [a]))" by simp
    with True Cons[of "caps @ [a]"] show ?thesis by simp
  next
    case False
    then have "nat n - length caps = 0" by simp
    with False show ?thesis by simp
  qed
qed


subsection \<open>Unfolding a concrete run\<close>

lemmas run_defs =
  perform.simps(1,2,20) execute_def attachAsync_def detach_def forward_def run_prog_def
  attach_loop_def dequeue_def attach_finish_def finalize_def engineRequest_finalize_def
  detachAsync_def error_def setState_def deep_recursion_def deep_recursion_msg_def
  recursion_limit_def statsStartExecute_def statsFinishExecute_def finalized_def handoffs_def
  app_def app_comps_def mk_component_def ctx0_def Let_def


section \<open>The properties\<close>

subsection \<open>C1\<close>

text \<open>
  Claim C1, as the code has it. An \<^verbatim>\<open>attachAsync\<close> call finds \<open>asyncDetached\<close> at
  1, so that it brings it to 0, on a context that is not finalized. Then:
  \<^item> the call returns, under a bound large enough;
  \<^item> what it returns is what the resumption of the claim ends with, started
    on the context with \<open>asyncDetached\<close> at 0; and whatever that resumption
    ends with, the call returns;
  \<^item> turn by turn, the resumption is this and nothing else: with the cursor
    at the end of the queue it goes to the end of \<^verbatim>\<open>attachAsync\<close>; otherwise
    the cursor is advanced, the entry that was under it is executed, and on
    its result: a failure, at whichever entry, ends the resumption and goes
    to the end of \<^verbatim>\<open>attachAsync\<close>; a success that left \<open>asyncDetached\<close>
    different from 0, at whichever entry, returns to the caller with the
    context as the action left it; after any other success the resumption
    goes on with the next entry, also when the action has finalized the
    response;
  \<^item> when the call returns, the queue is unchanged, the cursor has only moved
    forward and is still within the queue, and the entries read from the
    queue during the call (by this loop or by one nested in an executed
    action) are those from the old cursor up to the new one, in order, each
    once;
  \<^item> the end of \<^verbatim>\<open>attachAsync\<close> changes nothing when the bit \<open>Async\<close> is not
    set; when it is set it emits the signal \<^verbatim>\<open>afterDispatch\<close> and calls
    \<^verbatim>\<open>finalize\<close>, which hands the response over and sets \<open>Finalized\<close>, or
    logs its warning when the response is finalized already. So a failure
    does finalize the response of an asynchronous request.
\<close>

theorem attachAsync_resumes:
  assumes d: "asyncDetached s = 1" and f: "Finalized \<notin> status s"
  shows
   "(\<exists>k s''. attachAsync k e s = Some s'') \<and>
    (attachAsync n e s = Some s' \<longrightarrow>
       resumption e (s\<lparr>asyncDetached := 0\<rparr>) s' \<and>
       pendingAsync s' = pendingAsync s \<and> asyncAction s \<le> asyncAction s' \<and>
       (asyncAction s \<le> length (pendingAsync s) \<longrightarrow> asyncAction s' \<le> length (pendingAsync s)) \<and>
       dequeued (events s') = dequeued (events s) @ [asyncAction s ..< asyncAction s']) \<and>
    (resumption e (s\<lparr>asyncDetached := 0\<rparr>) s' \<longrightarrow> (\<exists>k. attachAsync k e s = Some s')) \<and>
    (resumption e u u' \<longleftrightarrow>
       (length (pendingAsync u) \<le> asyncAction u \<and> u' = attach_finish u) \<or>
       (asyncAction u < length (pendingAsync u) \<and>
        (\<exists>r t. executes e (pendingAsync u ! asyncAction u) (dequeue u) r t \<and>
           (if \<not> r then u' = attach_finish t
            else if asyncDetached t \<noteq> 0 then u' = t
            else resumption e t u')))) \<and>
    attach_finish t =
      (if Async \<in> status t then
         (if Finalized \<in> status t
          then t\<lparr>events := events t @ [AfterDispatch, LogWarning finalize_warning]\<rparr>
          else t\<lparr>stats := False, status := insert Finalized (status t),
                 events := events t @ [AfterDispatch] @ (if stats t then [StatsReport] else [])
                             @ [EngineFinalize]\<rparr>)
       else t)"
proof (intro conjI impI)
  show "\<exists>k s''. attachAsync k e s = Some s''" by (rule attachAsync_returns)
next
  assume run: "attachAsync n e s = Some s'"
  then obtain r0 where p: "perform n e AttachAsync s = Some (r0, s')"
    by (auto simp: attachAsync_def)
  with d f have "perform n e AttachLoop (s\<lparr>asyncDetached := 0\<rparr>) = Some (r0, s')"
    by (simp add: Let_def)
  then show "resumption e (s\<lparr>asyncDetached := 0\<rparr>) s'" by (rule attach_loop_resumption)
  from p have q: "queue_kept s s'"
    by (rule perform_preserved[OF preserved_queue, rotated]) simp
  then show "pendingAsync s' = pendingAsync s" "asyncAction s \<le> asyncAction s'"
    "dequeued (events s') = dequeued (events s) @ [asyncAction s ..< asyncAction s']"
    by (simp_all add: queue_kept_def)
  assume "asyncAction s \<le> length (pendingAsync s)"
  with q show "asyncAction s' \<le> length (pendingAsync s)"
    by (simp add: queue_kept_def)
next
  assume "resumption e (s\<lparr>asyncDetached := 0\<rparr>) s'"
  then obtain k where "perform k e AttachLoop (s\<lparr>asyncDetached := 0\<rparr>) = Some (True, s')"
    using resumption_attach_loop by blast
  with d f have "attachAsync k e s = Some s'"
    by (simp add: attachAsync_def Let_def)
  then show "\<exists>k. attachAsync k e s = Some s'" by blast
next
  show "resumption e u u' \<longleftrightarrow>
       (length (pendingAsync u) \<le> asyncAction u \<and> u' = attach_finish u) \<or>
       (asyncAction u < length (pendingAsync u) \<and>
        (\<exists>r t. executes e (pendingAsync u ! asyncAction u) (dequeue u) r t \<and>
           (if \<not> r then u' = attach_finish t
            else if asyncDetached t \<noteq> 0 then u' = t
            else resumption e t u')))"
    by (rule resumption_turn)
next
  show "attach_finish t =
      (if Async \<in> status t then
         (if Finalized \<in> status t
          then t\<lparr>events := events t @ [AfterDispatch, LogWarning finalize_warning]\<rparr>
          else t\<lparr>stats := False, status := insert Finalized (status t),
                 events := events t @ [AfterDispatch] @ (if stats t then [StatsReport] else [])
                             @ [EngineFinalize]\<rparr>)
       else t)"
    by (rule attach_finish_eq)
qed

text \<open>
  Three runs of the sample application. With the queue \<open>[finish, index]\<close>
  the first action finalizes the response and succeeds, and the second entry
  is executed all the same: the cursor ends at 2. With the queue
  \<open>[index, fail, index]\<close> the first two entries are read, the failure stops
  the loop at cursor 2 and the response is finalized. With the queue
  \<open>[suspend, index]\<close> the first action suspends again and the call returns
  with the cursor at 1.
\<close>

theorem attachAsync_resumes_witness:
  "attachAsync 6 app (ctx0\<lparr>asyncDetached := 1, status := {Async}, pendingAsync := [5, 0]\<rparr>) =
     Some (ctx0\<lparr>asyncDetached := 0, status := {Finalized, Async}, pendingAsync := [5, 0],
       asyncAction := 2,
       events := [Dequeue 0, Invoke 5, Called CFinalize, EngineFinalize, Dequeue 1, Invoke 0,
                  AfterDispatch, LogWarning finalize_warning]\<rparr>) \<and>
   resumption app (ctx0\<lparr>asyncDetached := 0, status := {Async}, pendingAsync := [5, 0]\<rparr>)
     (ctx0\<lparr>asyncDetached := 0, status := {Finalized, Async}, pendingAsync := [5, 0],
       asyncAction := 2,
       events := [Dequeue 0, Invoke 5, Called CFinalize, EngineFinalize, Dequeue 1, Invoke 0,
                  AfterDispatch, LogWarning finalize_warning]\<rparr>) \<and>
   attachAsync 4 app (ctx0\<lparr>asyncDetached := 1, status := {Async}, pendingAsync := [0, 1, 0]\<rparr>) =
     Some (ctx0\<lparr>asyncDetached := 0, status := {Finalized, Async}, pendingAsync := [0, 1, 0],
       asyncAction := 2,
       events := [Dequeue 0, Invoke 0, Dequeue 1, Invoke 1, AfterDispatch, EngineFinalize]\<rparr>) \<and>
   dequeued [Dequeue 0, Invoke 0, Dequeue 1, Invoke 1, AfterDispatch, EngineFinalize] = [0 ..< 2] \<and>
   attachAsync 4 app (ctx0\<lparr>asyncDetached := 1, status := {Async}, pendingAsync := [2, 0]\<rparr>) =
     Some (ctx0\<lparr>asyncDetached := 1, status := {Async}, pendingAsync := [2, 0],
       asyncAction := 1, events := [Dequeue 0, Invoke 2, Called CDetachAsync]\<rparr>)"
proof -
  let ?u = "ctx0\<lparr>asyncDetached := 1, status := {Async}, pendingAsync := [5, 0]\<rparr>"
  let ?u' = "ctx0\<lparr>asyncDetached := 0, status := {Finalized, Async}, pendingAsync := [5, 0],
       asyncAction := 2,
       events := [Dequeue 0, Invoke 5, Called CFinalize, EngineFinalize, Dequeue 1, Invoke 0,
                  AfterDispatch, LogWarning finalize_warning]\<rparr>"
  have du: "asyncDetached ?u = 1" and fu: "Finalized \<notin> status ?u"
    by (simp_all add: ctx0_def)
  have runu: "attachAsync 6 app ?u = Some ?u'"
    by (simp add: run_defs eval_nat_numeral insert_commute)
  from attachAsync_resumes[OF du fu, where n = 6 and e = app and s' = ?u'] runu
  have "resumption app (?u\<lparr>asyncDetached := 0\<rparr>) ?u'" by blast
  then have ru: "resumption app (ctx0\<lparr>asyncDetached := 0, status := {Async}, pendingAsync := [5, 0]\<rparr>) ?u'"
    by (simp add: ctx0_def)
  let ?s = "ctx0\<lparr>asyncDetached := 1, status := {Async}, pendingAsync := [0, 1, 0]\<rparr>"
  let ?s' = "ctx0\<lparr>asyncDetached := 0, status := {Finalized, Async}, pendingAsync := [0, 1, 0],
       asyncAction := 2,
       events := [Dequeue 0, Invoke 0, Dequeue 1, Invoke 1, AfterDispatch, EngineFinalize]\<rparr>"
  have d: "asyncDetached ?s = 1" and f: "Finalized \<notin> status ?s"
    by (simp_all add: ctx0_def)
  have run: "attachAsync 4 app ?s = Some ?s'"
    by (simp add: run_defs eval_nat_numeral insert_commute)
  from attachAsync_resumes[OF d f, where n = 4 and e = app and s' = ?s'] run
  have "dequeued (events ?s') = dequeued (events ?s) @ [asyncAction ?s ..< asyncAction ?s']"
    by blast
  then have q: "dequeued [Dequeue 0, Invoke 0, Dequeue 1, Invoke 1, AfterDispatch, EngineFinalize] = [0 ..< 2]"
    by (simp add: ctx0_def)
  have rt: "attachAsync 4 app (ctx0\<lparr>asyncDetached := 1, status := {Async}, pendingAsync := [2, 0]\<rparr>) =
     Some (ctx0\<lparr>asyncDetached := 1, status := {Async}, pendingAsync := [2, 0],
       asyncAction := 1, events := [Dequeue 0, Invoke 2, Called CDetachAsync]\<rparr>)"
    by (simp add: run_defs eval_nat_numeral)
  from runu ru run q rt show ?thesis by blast
qed

text \<open>
  Against C1 as stated (a failure stops the loop without finalizing): the
  queue is \<open>[fail, index]\<close>, the execution of the first action returns
  failure, and \<^verbatim>\<open>attachAsync\<close> returns with the context finalized and the
  cursor at 1.
\<close>

theorem attachAsync_failure_finalizes_counterexample:
  "map_option fst
     (execute 2 app 1
        (dequeue (ctx0\<lparr>asyncDetached := 0, status := {Async}, pendingAsync := [1, 0]\<rparr>))) = Some False \<and>
   map_option finalized
     (attachAsync 3 app (ctx0\<lparr>asyncDetached := 1, status := {Async}, pendingAsync := [1, 0]\<rparr>)) = Some True \<and>
   map_option asyncAction
     (attachAsync 3 app (ctx0\<lparr>asyncDetached := 1, status := {Async}, pendingAsync := [1, 0]\<rparr>)) = Some 1"
  by (simp add: run_defs eval_nat_numeral)

subsection \<open>C2\<close>

text \<open>
  Claim C2. An \<^verbatim>\<open>attachAsync\<close> call made while \<open>asyncDetached\<close> is greater than
  1 returns the context with \<open>asyncDetached\<close> decremented and nothing else
  changed, under any bound: no entry of the queue is read, no event is
  recorded, nothing is finalized. A call that returns anything else found
  \<open>asyncDetached\<close> at 1.
\<close>

theorem attachAsync_outstanding:
  "(1 < asyncDetached s \<longrightarrow>
      attachAsync n e s = Some (s\<lparr>asyncDetached := asyncDetached s - 1\<rparr>)) \<and>
   (attachAsync n e s \<noteq> Some (s\<lparr>asyncDetached := asyncDetached s - 1\<rparr>) \<longrightarrow>
      asyncDetached s = 1)"
  using attachAsync_decrement[of s n e] by auto

text \<open>
  With three suspensions outstanding the call only decrements; with one, it
  does more than that.
\<close>

theorem attachAsync_outstanding_witness:
  "attachAsync 4 app (ctx0\<lparr>asyncDetached := 3, status := {Async}, pendingAsync := [0]\<rparr>) =
     Some (ctx0\<lparr>asyncDetached := 2, status := {Async}, pendingAsync := [0]\<rparr>) \<and>
   attachAsync 4 app (ctx0\<lparr>asyncDetached := 1, status := {Async}, pendingAsync := [0]\<rparr>) \<noteq>
     Some (ctx0\<lparr>asyncDetached := 0, status := {Async}, pendingAsync := [0]\<rparr>) \<and>
   asyncDetached (ctx0\<lparr>asyncDetached := 1, status := {Async}, pendingAsync := [0]\<rparr>) = 1"
proof -
  let ?s = "ctx0\<lparr>asyncDetached := 3, status := {Async}, pendingAsync := [0]\<rparr>"
  have "1 < asyncDetached ?s" by simp
  with attachAsync_outstanding[of ?s 4 app]
  have a: "attachAsync 4 app ?s = Some (ctx0\<lparr>asyncDetached := 2, status := {Async}, pendingAsync := [0]\<rparr>)"
    by simp
  have b: "attachAsync 4 app (ctx0\<lparr>asyncDetached := 1, status := {Async}, pendingAsync := [0]\<rparr>) \<noteq>
     Some (ctx0\<lparr>asyncDetached := 0, status := {Async}, pendingAsync := [0]\<rparr>)"
    by (simp add: run_defs eval_nat_numeral)
  from a b show ?thesis by simp
qed

subsection \<open>C3\<close>

text \<open>
  Claim C3. When the stack is at least as deep as the recursion limit,
  \<^verbatim>\<open>execute\<close> returns failure, under any bound, and the context it leaves is
  the one it found with one message appended to \<open>errors\<close> (the message also
  logged), and \<open>state\<close> false. The stack is as it was and the component was
  not invoked (no \<open>Invoke\<close> event). The message is
  \<open>Deep recursion detected (stack size D) calling R, N\<close> with \<open>D\<close> the depth
  of the stack in decimal digits (the digits write that number), \<open>R\<close> the
  component's \<^verbatim>\<open>reverse()\<close> and \<open>N\<close> its \<^verbatim>\<open>name()\<close>. The limit is 1000 unless
  the variable \<^verbatim>\<open>RECURSION\<close> of the environment gives another.
\<close>

theorem execute_at_recursion_limit:
  "recursion_limit (RECURSION e) \<le> int (length (stack s)) \<Longrightarrow>
     (let msg = ''Deep recursion detected (stack size '' @ string_of_nat (length (stack s))
                  @ '') calling '' @ reverse (comps e c) @ '', '' @ name (comps e c)
      in execute n e c s =
           Some (False,
             s\<lparr>errors := errors s @ [msg], events := events s @ [LogCritical msg],
               state := False\<rparr>))
     \<and> decimal_value (string_of_nat (length (stack s))) = length (stack s)
     \<and> recursion_limit None = 1000 \<and> recursion_limit (Some v) = v"
proof (intro conjI)
  assume lim: "recursion_limit (RECURSION e) \<le> int (length (stack s))"
  let ?msg = "''Deep recursion detected (stack size '' @ string_of_nat (length (stack s))
                  @ '') calling '' @ reverse (comps e c) @ '', '' @ name (comps e c)"
  have m: "deep_recursion_msg (comps e c) (length (stack s)) = ?msg"
    by (simp add: deep_recursion_msg_def)
  from lim have "execute n e c s = Some (False, deep_recursion (comps e c) s)"
    by (cases n) (simp_all add: execute_def perform_Execute_0 perform_Execute_Suc at_limit_def)
  then show "let msg = ?msg in execute n e c s =
           Some (False,
             s\<lparr>errors := errors s @ [msg], events := events s @ [LogCritical msg],
               state := False\<rparr>)"
    by (simp add: deep_recursion_eq m Let_def)
  show "decimal_value (string_of_nat (length (stack s))) = length (stack s)"
    by (rule decimal_string_of_nat)
qed (simp_all add: recursion_limit_def)

text \<open>
  With the limit set to 2 and a stack of depth 2.
\<close>

theorem execute_at_recursion_limit_witness:
  "execute 0 (app\<lparr>RECURSION := Some 2\<rparr>) 0 (ctx0\<lparr>stack := [4, 4]\<rparr>) =
     Some (False,
       ctx0\<lparr>stack := [4, 4],
         errors := [''Deep recursion detected (stack size 2) calling root/index, index''],
         events := [LogCritical ''Deep recursion detected (stack size 2) calling root/index, index''],
         state := False\<rparr>)"
proof -
  have h: "recursion_limit (RECURSION (app\<lparr>RECURSION := Some 2\<rparr>))
      \<le> int (length (stack (ctx0\<lparr>stack := [4, 4]\<rparr>)))"
    by (simp add: recursion_limit_def)
  from execute_at_recursion_limit[OF h, where c = 0 and n = 0 and v = 0]
  show ?thesis
    by (simp add: Let_def ctx0_def app_def app_comps_def mk_component_def
        string_of_nat.simps eval_nat_numeral)
qed

subsection \<open>C4\<close>

text \<open>
  Claim C4. An \<^verbatim>\<open>execute\<close> call returns, under a bound large enough, and a
  larger bound gives the same result. When it returns, the stack is what it
  was before the call, whatever the component did, returned, or finalized;
  and so after any run of calls on the context. Every nested \<^verbatim>\<open>execute\<close>
  is itself such a call. Below the limit the component is invoked on the
  stack with itself pushed on top, and the top is removed after the
  invocation.
\<close>

theorem execute_stack_paired:
  "(\<exists>k r' s''. execute k e c s = Some (r', s'')) \<and>
   (execute n e c s = Some (r, s') \<longrightarrow>
      stack s' = stack s \<and> execute (n + k) e c s = Some (r, s')) \<and>
   (run_prog n e p s = Some (r, s') \<longrightarrow> stack s' = stack s) \<and>
   (\<not> at_limit e s \<longrightarrow>
      stack (snd (exec_enter e c s)) = stack s @ [c] \<and>
      execute (Suc n) e c s =
        (case run_prog n e (body (comps e c)) (snd (exec_enter e c s)) of
           None \<Rightarrow> None
         | Some (ret, s3) \<Rightarrow> Some (ret, exec_leave (fst (exec_enter e c s)) s3)) \<and>
      (\<forall>i s3. stack (exec_leave i s3) = butlast (stack s3)))"
  using execute_returns[of e c s]
    perform_preserved[OF preserved_stack, of "Execute c" n e s r s']
    perform_preserved[OF preserved_stack, of "RunProg p" n e s r s']
    perform_mono[of n e "Execute c" s "(r, s')" k]
  by (simp add: execute_def run_prog_def perform_Execute_Suc stack_enter stack_leave)

text \<open>
  The component \<open>boom\<close> records an error, finalizes and fails; the stack after
  the call is the stack before it.
\<close>

theorem execute_stack_paired_witness:
  "execute 4 app 3 (ctx0\<lparr>stack := [4]\<rparr>) =
     Some (False,
       ctx0\<lparr>stack := [4], errors := [''boom''], status := {Finalized},
         events := [Invoke 3, Called (CError ''boom''), LogCritical ''boom'',
                    Called CFinalize, EngineFinalize]\<rparr>) \<and>
   stack (ctx0\<lparr>stack := [4], errors := [''boom''], status := {Finalized},
         events := [Invoke 3, Called (CError ''boom''), LogCritical ''boom'',
                    Called CFinalize, EngineFinalize]\<rparr>) = [4]"
proof -
  let ?s' = "ctx0\<lparr>stack := [4], errors := [''boom''], status := {Finalized},
         events := [Invoke 3, Called (CError ''boom''), LogCritical ''boom'',
                    Called CFinalize, EngineFinalize]\<rparr>"
  have run: "execute 4 app 3 (ctx0\<lparr>stack := [4]\<rparr>) = Some (False, ?s')"
    by (simp add: run_defs eval_nat_numeral)
  from execute_stack_paired[where e = app and c = 3 and s = "ctx0\<lparr>stack := [4]\<rparr>"
      and n = 4 and r = False and s' = ?s'] run
  have "stack ?s' = stack (ctx0\<lparr>stack := [4]\<rparr>)" by blast
  then have "stack ?s' = [4]" by simp
  with run show ?thesis by blast
qed

subsection \<open>C5\<close>

text \<open>
  Claim C5. On a context that is not finalized, \<^verbatim>\<open>finalize\<close> hands the
  response to the engine once and leaves the context finalized. On a
  finalized context it only logs a warning: the context is otherwise
  unchanged and nothing is handed over. Any run of calls on the context
  returns, under a bound large enough, and a finalized context stays so
  through it, with nothing handed over again.
\<close>

theorem finalize_once:
  "(Finalized \<notin> status s \<longrightarrow>
      Finalized \<in> status (finalize s) \<and>
      handoffs (events (finalize s)) = handoffs (events s) + 1) \<and>
   (Finalized \<in> status s \<longrightarrow>
      finalize s = s\<lparr>events := events s @ [LogWarning finalize_warning]\<rparr>) \<and>
   (\<exists>k r' s''. run_prog k e p s = Some (r', s'')) \<and>
   (Finalized \<in> status s \<longrightarrow> run_prog n e p s = Some (r, s') \<longrightarrow>
      Finalized \<in> status s' \<and> handoffs (events s') = handoffs (events s))"
proof (intro conjI impI)
  show "\<exists>k r' s''. run_prog k e p s = Some (r', s'')" by (rule run_prog_returns)
next
  assume "Finalized \<in> status s" and "run_prog n e p s = Some (r, s')"
  then have "finalized_kept s s'" "Finalized \<in> status s"
    using perform_preserved[OF preserved_finalized, of "RunProg p" n e s r s']
    by (simp_all add: run_prog_def)
  then show "Finalized \<in> status s'" "handoffs (events s') = handoffs (events s)"
    by (simp_all add: finalized_kept_def)
qed (simp_all add: finalize_def engineRequest_finalize_def handoffs_def)

text \<open>
  The first and the second call on the initial context, and a component
  that calls \<^verbatim>\<open>finalize\<close> on the finalized context.
\<close>

theorem finalize_once_witness:
  "Finalized \<notin> status ctx0 \<and> Finalized \<in> status (finalize ctx0) \<and>
   handoffs (events (finalize ctx0)) = 1 \<and>
   finalize (finalize ctx0) =
     ctx0\<lparr>status := {Finalized}, events := [EngineFinalize, LogWarning finalize_warning]\<rparr> \<and>
   run_prog 3 app (Call CFinalize (\<lambda>r s. Return True)) (finalize ctx0) =
     Some (True, ctx0\<lparr>status := {Finalized},
       events := [EngineFinalize, Called CFinalize, LogWarning finalize_warning]\<rparr>)"
proof -
  have n: "Finalized \<notin> status ctx0" by (simp add: ctx0_def)
  have y: "Finalized \<in> status (finalize ctx0)"
    using finalize_once[where s = ctx0] n by blast
  have r: "run_prog 3 app (Call CFinalize (\<lambda>r s. Return True)) (finalize ctx0) =
     Some (True, ctx0\<lparr>status := {Finalized},
       events := [EngineFinalize, Called CFinalize, LogWarning finalize_warning]\<rparr>)"
    by (simp add: run_defs eval_nat_numeral)
  have "handoffs (events (finalize ctx0)) = 1"
    using finalize_once[where s = ctx0] n by (simp add: ctx0_def handoffs_def)
  moreover have "finalize (finalize ctx0) =
     ctx0\<lparr>status := {Finalized}, events := [EngineFinalize, LogWarning finalize_warning]\<rparr>"
    using finalize_once[where s = "finalize ctx0"] y
    by (simp add: finalize_def engineRequest_finalize_def ctx0_def)
  ultimately show ?thesis using n y r by simp
qed

subsection \<open>C6\<close>

text \<open>
  Claim C6, as the code has it. An \<^verbatim>\<open>attachAsync\<close> call that finds
  \<open>asyncDetached\<close> at 0 is accepted in silence: it leaves the counter at -1
  and returns, with no warning and nothing else changed; the queue and the
  cursor are untouched. A \<^verbatim>\<open>detachAsync\<close> after it brings the counter to 0,
  and the \<^verbatim>\<open>attachAsync\<close> that follows brings it back to -1 and resumes
  nothing.
\<close>

theorem attachAsync_unmatched:
  "asyncDetached s = 0 \<Longrightarrow>
     attachAsync n e s = Some (s\<lparr>asyncDetached := - 1\<rparr>) \<and>
     asyncDetached (detachAsync (s\<lparr>asyncDetached := - 1\<rparr>)) = 0 \<and>
     attachAsync n e (detachAsync (s\<lparr>asyncDetached := - 1\<rparr>)) =
       Some (s\<lparr>asyncDetached := - 1, status := insert Async (status s)\<rparr>)"
proof (intro conjI)
  assume d: "asyncDetached s = 0"
  then have "asyncDetached s \<noteq> 1" by simp
  then have "attachAsync n e s = Some (s\<lparr>asyncDetached := asyncDetached s - 1\<rparr>)"
    by (rule attachAsync_decrement)
  with d show "attachAsync n e s = Some (s\<lparr>asyncDetached := - 1\<rparr>)" by simp
  let ?t = "detachAsync (s\<lparr>asyncDetached := - 1\<rparr>)"
  have t: "?t = s\<lparr>asyncDetached := 0, status := insert Async (status s)\<rparr>"
    by (simp add: detachAsync_def)
  then show "asyncDetached ?t = 0" by simp
  then have "asyncDetached ?t \<noteq> 1" by simp
  then have "attachAsync n e ?t = Some (?t\<lparr>asyncDetached := asyncDetached ?t - 1\<rparr>)"
    by (rule attachAsync_decrement)
  then show "attachAsync n e ?t =
      Some (s\<lparr>asyncDetached := - 1, status := insert Async (status s)\<rparr>)"
    by (simp add: t)
qed

text \<open>
  On the initial context with one pending action.
\<close>

theorem attachAsync_unmatched_witness:
  "attachAsync 3 app (ctx0\<lparr>pendingAsync := [0]\<rparr>) =
     Some (ctx0\<lparr>pendingAsync := [0], asyncDetached := - 1\<rparr>) \<and>
   attachAsync 3 app (detachAsync (ctx0\<lparr>pendingAsync := [0], asyncDetached := - 1\<rparr>)) =
     Some (ctx0\<lparr>pendingAsync := [0], asyncDetached := - 1, status := {Async}\<rparr>)"
proof -
  have "asyncDetached (ctx0\<lparr>pendingAsync := [0]\<rparr>) = 0" by (simp add: ctx0_def)
  from attachAsync_unmatched[OF this, of 3 app] show ?thesis by (simp add: ctx0_def)
qed

text \<open>
  Against C6 as stated (rejected or clamped): the unmatched call leaves
  \<open>asyncDetached\<close> at -1 and records nothing, and the pair of calls that
  follows does not run the pending action (the cursor stays at 0), where
  the same pair on the initial context runs it (the cursor is at 1).
\<close>

theorem attachAsync_unmatched_counterexample:
  "map_option asyncDetached (attachAsync 3 app (ctx0\<lparr>pendingAsync := [0]\<rparr>)) = Some (- 1) \<and>
   map_option events (attachAsync 3 app (ctx0\<lparr>pendingAsync := [0]\<rparr>)) = Some [] \<and>
   map_option asyncAction
     (attachAsync 3 app (detachAsync (ctx0\<lparr>pendingAsync := [0], asyncDetached := - 1\<rparr>))) = Some 0 \<and>
   map_option asyncAction
     (attachAsync 3 app (detachAsync (ctx0\<lparr>pendingAsync := [0]\<rparr>))) = Some 1"
  by (simp add: run_defs eval_nat_numeral)

subsection \<open>C7\<close>

text \<open>
  Claim C7, as the code has it. \<^verbatim>\<open>error\<close> with a message that is not empty
  appends it after the messages already there; \<^verbatim>\<open>error\<close> with the empty
  string removes them all. Any run of calls on the context returns, under a
  bound large enough; when no call of \<^verbatim>\<open>error\<close> with the empty string was
  made in it, the messages present before are kept, in order, at the front
  of \<open>errors\<close>.
\<close>

theorem errors_kept_in_order:
  "(msg \<noteq> [] \<longrightarrow> errors (error msg s) = errors s @ [msg]) \<and>
   errors (error [] s) = [] \<and>
   (\<exists>k r' s''. run_prog k e p s = Some (r', s'')) \<and>
   (run_prog n e p s = Some (r, s') \<longrightarrow>
      (\<exists>ev. events s' = events s @ ev \<and>
         (Called (CError []) \<notin> set ev \<longrightarrow> prefix (errors s) (errors s'))))"
  using perform_preserved[OF preserved_errors, of "RunProg p" n e s r s']
    run_prog_returns[of e p s]
  by (simp add: error_def run_prog_def errors_kept_def)

text \<open>
  A second message goes after the first, and a run that records an error
  keeps the message that was there.
\<close>

theorem errors_kept_in_order_witness:
  "errors (error ''again'' (ctx0\<lparr>errors := [''boom'']\<rparr>)) = [''boom'', ''again''] \<and>
   run_prog 6 app (Call (CExecute 3) (\<lambda>r s. Return r)) (ctx0\<lparr>errors := [''first'']\<rparr>) =
     Some (False, ctx0\<lparr>errors := [''first'', ''boom''], status := {Finalized},
       events := [Called (CExecute 3), Invoke 3, Called (CError ''boom''), LogCritical ''boom'',
                  Called CFinalize, EngineFinalize]\<rparr>) \<and>
   prefix [''first''] [''first'', ''boom'']"
proof -
  let ?s' = "ctx0\<lparr>errors := [''first'', ''boom''], status := {Finalized},
       events := [Called (CExecute 3), Invoke 3, Called (CError ''boom''), LogCritical ''boom'',
                  Called CFinalize, EngineFinalize]\<rparr>"
  have run: "run_prog 6 app (Call (CExecute 3) (\<lambda>r s. Return r)) (ctx0\<lparr>errors := [''first'']\<rparr>) =
     Some (False, ?s')"
    by (simp add: run_defs eval_nat_numeral)
  have "errors (error ''again'' (ctx0\<lparr>errors := [''boom'']\<rparr>)) = [''boom'', ''again'']"
    using errors_kept_in_order[of "''again''" "ctx0\<lparr>errors := [''boom'']\<rparr>"] by simp
  moreover from errors_kept_in_order[of "[]" "ctx0\<lparr>errors := [''first'']\<rparr>" app
      "Call (CExecute 3) (\<lambda>r s. Return r)" 6 False ?s'] run
  have "prefix [''first''] [''first'', ''boom'']" by (auto simp: ctx0_def)
  ultimately show ?thesis using run by blast
qed

text \<open>
  Against C7 as stated (kept by further calls of \<^verbatim>\<open>error\<close> with any
  argument): after \<^verbatim>\<open>error("boom")\<close>, \<^verbatim>\<open>error("")\<close> leaves no message.
\<close>

theorem error_empty_clears_counterexample:
  "errors (error ''boom'' ctx0) = [''boom''] \<and> errors (error [] (error ''boom'' ctx0)) = []"
  by (simp add: error_def ctx0_def)

subsection \<open>C8\<close>

text \<open>
  Claim C8, as the code has it. \<^verbatim>\<open>detach\<close> with an action does what
  \<^verbatim>\<open>forward\<close> does with it and drops the result; it does not set
  \<open>detached\<close>. \<^verbatim>\<open>detach\<close> without an action sets \<open>detached\<close> and does
  nothing else.
\<close>

theorem detach_action_is_forward:
  "detach n e (Some a) s = map_option snd (forward n e a s) \<and>
   forward n e a s = execute n e a s \<and>
   detach n e None s = Some (s\<lparr>detached := True\<rparr>)"
proof (intro conjI)
  have f: "perform n e (Forward a) s = perform n e (Execute a) s" by simp
  then show "forward n e a s = execute n e a s"
    by (simp add: forward_def execute_def)
  have "perform n e (Detach (Some a)) s =
      map_option (\<lambda>(r, s'). (True, s')) (perform n e (Forward a) s)"
    by simp
  then show "detach n e (Some a) s = map_option snd (forward n e a s)"
    by (simp add: detach_def forward_def option.map_comp comp_def split_def)
  show "detach n e None s = Some (s\<lparr>detached := True\<rparr>)"
    by (simp add: detach_def)
qed

text \<open>
  On the initial context, with the action \<open>index\<close>.
\<close>

theorem detach_action_is_forward_witness:
  "detach 3 app (Some 0) ctx0 = Some (ctx0\<lparr>events := [Invoke 0]\<rparr>) \<and>
   forward 3 app 0 ctx0 = Some (True, ctx0\<lparr>events := [Invoke 0]\<rparr>)"
proof -
  have "forward 3 app 0 ctx0 = Some (True, ctx0\<lparr>events := [Invoke 0]\<rparr>)"
    by (simp add: run_defs eval_nat_numeral)
  with detach_action_is_forward[of 3 app 0 ctx0] show ?thesis by simp
qed

text \<open>
  Against C8 as stated (\<^verbatim>\<open>detach\<close> with an action leaves the context
  detached): after \<^verbatim>\<open>detach(index)\<close> the flag \<open>detached\<close> is false, where
  \<^verbatim>\<open>detach()\<close> sets it.
\<close>

theorem detach_action_counterexample:
  "map_option detached (detach 3 app (Some 0) ctx0) = Some False \<and>
   map_option detached (detach 3 app None ctx0) = Some True \<and>
   detach 3 app (Some 0) ctx0 = map_option snd (forward 3 app 0 ctx0)"
  by (simp add: run_defs eval_nat_numeral)

subsection \<open>C9\<close>

text \<open>
  Claim C9, as the code has it. For a path that is not empty, \<^verbatim>\<open>uriFor\<close>
  returns the request's URL with the query replaced by the entries of the
  mapping in the reverse of the order its iterator visits them (an empty
  mapping gives no query), and, for a path other than \<open>/\<close> that starts with
  a slash and arguments that are not empty, with the path followed by the
  arguments, each after a slash.
\<close>

theorem uriFor_query_reversed:
  "path \<noteq> [] \<Longrightarrow>
     map_option url_query (uriFor e s path args qv) = Some (rev qv) \<and>
     map_option url_base (uriFor e s path args qv) = Some (url_base (requestUri s)) \<and>
     (hd path = CHR ''/'' \<longrightarrow> path \<noteq> ''/'' \<longrightarrow> args \<noteq> [] \<longrightarrow>
        map_option url_path (uriFor e s path args qv) = Some (path @ ''/'' @ join ''/'' args))"
proof -
  assume p: "path \<noteq> []"
  have q: "add_backwards qv (length qv) [] = rev qv"
    using add_backwards_rev[of "length qv" qv "[]"] by simp
  define p1 where "p1 = (if args \<noteq> [] then
      (if path = ''/'' then path @ join ''/'' args else path @ ''/'' @ join ''/'' args)
    else path)"
  define p2 where "p2 = (if \<not> (p1 \<noteq> [] \<and> hd p1 = CHR ''/'') then CHR ''/'' # p1 else p1)"
  have u: "uriFor e s path args qv = Some ((requestUri s)\<lparr>url_path := p2, url_query := rev qv\<rparr>)"
    using p q by (cases "qv = []") (simp_all add: uriFor_def p1_def p2_def Let_def)
  have "p2 = path @ ''/'' @ join ''/'' args"
    if "hd path = CHR ''/''" "path \<noteq> ''/''" "args \<noteq> []"
    using that p by (cases path) (simp_all add: p1_def p2_def)
  with u show ?thesis by simp
qed

text \<open>
  The path \<open>/x\<close> with the arguments \<open>a\<close>, \<open>b\<close> and the entries \<open>q=1\<close>, \<open>r=2\<close>:
  the path is \<open>/x/a/b\<close> and the query is \<open>r=2\<close>, then \<open>q=1\<close>. With no entry
  there is no query.
\<close>

theorem uriFor_query_reversed_witness:
  "uriFor app ctx0 ''/x'' [''a'', ''b''] [(''q'', ''1''), (''r'', ''2'')] =
     Some \<lparr>url_base = ''http://localhost'', url_path = ''/x/a/b'',
            url_query = [(''r'', ''2''), (''q'', ''1'')]\<rparr> \<and>
   map_option url_query (uriFor app ctx0 ''/x'' [''a'', ''b''] []) = Some []"
proof -
  have "map_option url_query (uriFor app ctx0 ''/x'' [''a'', ''b''] []) = Some []"
    using uriFor_query_reversed[of "''/x''" app ctx0 "[''a'', ''b'']" "[]"] by simp
  moreover have "uriFor app ctx0 ''/x'' [''a'', ''b''] [(''q'', ''1''), (''r'', ''2'')] =
     Some \<lparr>url_base = ''http://localhost'', url_path = ''/x/a/b'',
            url_query = [(''r'', ''2''), (''q'', ''1'')]\<rparr>"
    using uriFor_query_reversed[of "''/x''" app ctx0 "[''a'', ''b'']" "[(''q'', ''1''), (''r'', ''2'')]"]
    by (simp add: uriFor_def ctx0_def Let_def)
  ultimately show ?thesis by simp
qed

text \<open>
  Against C9 as stated: the query of that URL is not \<open>q=1\<close>, then \<open>r=2\<close>.
\<close>

theorem uriFor_query_order_counterexample:
  "map_option url_query (uriFor app ctx0 ''/x'' [''a'', ''b''] [(''q'', ''1''), (''r'', ''2'')])
     \<noteq> Some [(''q'', ''1''), (''r'', ''2'')]"
  by (simp add: uriFor_def ctx0_def Let_def addQueryItem_def eval_nat_numeral)

subsection \<open>C10\<close>

text \<open>
  Claim C10. When the expanded action requires a positive number of
  captures, \<^verbatim>\<open>uriFor\<close> moves arguments from the front of \<open>args\<close> to the end
  of \<open>captures\<close> until there are as many captures as required or no argument
  is left, asks the dispatcher for the path with these captures, and appends
  the arguments left to that path. When it requires none, the dispatcher is
  asked with no captures and the captures followed by the arguments are
  appended. (When the dispatcher finds no path the URL is empty.)
\<close>

theorem uriFor_action_captures:
  "disp_expandAction e act = Some x \<Longrightarrow>
     (0 < numberOfCaptures (comps e x) \<longrightarrow>
        uriFor_action e s act captures args qv =
          (let k = nat (numberOfCaptures (comps e x)) - length captures;
               path = disp_uriForAction e (case act of None \<Rightarrow> action s | Some a \<Rightarrow> Some a)
                        (captures @ take k args)
           in if path = [] then Some null_url else uriFor e s path (drop k args) qv)) \<and>
     (numberOfCaptures (comps e x) \<le> 0 \<longrightarrow>
        uriFor_action e s act captures args qv =
          (let path = disp_uriForAction e (case act of None \<Rightarrow> action s | Some a \<Rightarrow> Some a) []
           in if path = [] then Some null_url else uriFor e s path (captures @ args) qv))"
proof (intro conjI impI)
  assume x: "disp_expandAction e act = Some x"
    and pos: "0 < numberOfCaptures (comps e x)"
  let ?k = "nat (numberOfCaptures (comps e x)) - length captures"
  have "take_captures (numberOfCaptures (comps e x)) captures args =
      (captures @ take ?k args, drop ?k args)"
    by (rule take_captures_eq)
  with x pos show "uriFor_action e s act captures args qv =
      (let k = nat (numberOfCaptures (comps e x)) - length captures;
           path = disp_uriForAction e (case act of None \<Rightarrow> action s | Some a \<Rightarrow> Some a)
                    (captures @ take k args)
       in if path = [] then Some null_url else uriFor e s path (drop k args) qv)"
    by (simp add: uriFor_action_def Let_def)
next
  assume x: "disp_expandAction e act = Some x"
    and "numberOfCaptures (comps e x) \<le> 0"
  then show "uriFor_action e s act captures args qv =
      (let path = disp_uriForAction e (case act of None \<Rightarrow> action s | Some a \<Rightarrow> Some a) []
       in if path = [] then Some null_url else uriFor e s path (captures @ args) qv)"
    by (simp add: uriFor_action_def Let_def)
qed

text \<open>
  An action that requires one capture, with no captures and the arguments
  \<open>10\<close>, \<open>extra\<close>: the path is resolved with the capture \<open>10\<close>, and \<open>extra\<close> is
  appended. An action that requires none, with the capture \<open>c\<close> and the
  argument \<open>a\<close>: both are appended.
\<close>

theorem uriFor_action_captures_witness:
  "uriFor_action app ctx0 (Some 0) [] [''10'', ''extra''] [] =
     Some \<lparr>url_base = ''http://localhost'', url_path = ''/item/10/extra'', url_query = []\<rparr> \<and>
   disp_uriForAction app (Some 0) [''10''] = ''/item/10'' \<and>
   uriFor_action app ctx0 (Some 1) [''c''] [''a''] [] =
     Some \<lparr>url_base = ''http://localhost'', url_path = ''/item/c/a'', url_query = []\<rparr>"
proof -
  have x0: "disp_expandAction app (Some 0) = Some 0" and x1: "disp_expandAction app (Some 1) = Some 1"
    by (simp_all add: app_def)
  have "uriFor_action app ctx0 (Some 0) [] [''10'', ''extra''] [] =
     Some \<lparr>url_base = ''http://localhost'', url_path = ''/item/10/extra'', url_query = []\<rparr>"
    using uriFor_action_captures[OF x0, of ctx0 "[]" "[''10'', ''extra'']" "[]"]
    by (simp add: app_def app_comps_def mk_component_def uriFor_def ctx0_def Let_def)
  moreover have "uriFor_action app ctx0 (Some 1) [''c''] [''a''] [] =
     Some \<lparr>url_base = ''http://localhost'', url_path = ''/item/c/a'', url_query = []\<rparr>"
    using uriFor_action_captures[OF x1, of ctx0 "[''c'']" "[''a'']" "[]"]
    by (simp add: app_def app_comps_def mk_component_def uriFor_def ctx0_def Let_def)
  moreover have "disp_uriForAction app (Some 0) [''10''] = ''/item/10''"
    by (simp add: app_def)
  ultimately show ?thesis by simp
qed

end
